theory Spec2Isabelle
  imports Main "HOL-Library.Word"
begin

unbundle bit_operations_syntax

section \<open>Machine types and constants of fb\_term.c\<close>

text \<open>
  \<^verbatim>\<open>unsigned char\<close> is an 8-bit word and \<^verbatim>\<open>uint32_t\<close> a 32-bit word. The C \<^verbatim>\<open>int\<close>
  is an \<open>int\<close> here, with the two's-complement wrap-around of a 32-bit \<^verbatim>\<open>int\<close> written
  out (\<open>wrap32\<close>) at the additions and subtractions whose operands come from the input
  stream.
\<close>

type_synonym byte = "8 word"
type_synonym u32 = "32 word"

definition wrap32 :: "int \<Rightarrow> int" where
  "wrap32 i = (i + 2147483648) mod 4294967296 - 2147483648"

abbreviation (input) MAX_ESCAPE_PARAMS :: int where "MAX_ESCAPE_PARAMS \<equiv> 16"
abbreviation (input) MAX_TERM_COLS :: int where "MAX_TERM_COLS \<equiv> 500"
abbreviation (input) MAX_TERM_ROWS :: int where "MAX_TERM_ROWS \<equiv> 200"

text \<open>
  An access outside the bounds of an array is undefined behaviour in C. The model makes
  it a value: every function that indexes an array with a computed index returns
  \<open>Inl OutOfBounds\<close> at the first such access.
\<close>

datatype error = OutOfBounds

datatype parser_state = STATE_NORMAL | STATE_ESC | STATE_CSI | STATE_OSC

text \<open>\<^verbatim>\<open>struct cell\<close>; the fields other than \<open>codepoint\<close> carry the prefix \<open>cell_\<close>
  because \<^verbatim>\<open>struct terminal\<close> has fields of the same names.\<close>

record cell =
  codepoint :: u32
  cell_fg_color :: u32
  cell_bg_color :: u32
  cell_bold :: int

type_synonym grid = "int \<Rightarrow> int \<Rightarrow> cell"

text \<open>
  \<^verbatim>\<open>struct terminal\<close>, together with the two globals \<^verbatim>\<open>TERM_COLS\<close> and \<^verbatim>\<open>TERM_ROWS\<close> that
  every operation reads, and with \<open>master_out\<close>, the bytes that \<^verbatim>\<open>write(term->master_fd, ...)\<close>
  has sent so far. The arrays are functions of the index; \<open>cells g y x\<close> is
  \<^verbatim>\<open>cells[y][x]\<close> of the array \<^verbatim>\<open>cells[MAX_TERM_ROWS][MAX_TERM_COLS]\<close>.
\<close>

record terminal =
  TERM_COLS :: int
  TERM_ROWS :: int
  cells :: grid
  cursor_x :: int
  cursor_y :: int
  cursor_visible :: int
  fg_color :: u32
  bg_color :: u32
  bold :: int
  scroll_top :: int
  scroll_bottom :: int
  master_fd :: int
  state :: parser_state
  escape_params :: "nat \<Rightarrow> int"
  num_escape_params :: int
  private_mode :: int
  escape_buf_len :: int
  utf8_buf :: "nat \<Rightarrow> byte"
  utf8_buf_len :: int
  master_out :: "byte list"

section \<open>The colour palette\<close>

text \<open>\<^verbatim>\<open>init_color_palette\<close>: the table it fills, as a function of the index.\<close>

definition color_palette :: "int \<Rightarrow> u32" where
  "color_palette i =
    (if i = 0 then 0x00000000 else if i = 1 then 0x00CD0000
     else if i = 2 then 0x0000CD00 else if i = 3 then 0x00CDCD00
     else if i = 4 then 0x000000EE else if i = 5 then 0x00CD00CD
     else if i = 6 then 0x0000CDCD else if i = 7 then 0x00E5E5E5
     else if i = 8 then 0x007F7F7F else if i = 9 then 0x00FF0000
     else if i = 10 then 0x0000FF00 else if i = 11 then 0x00FFFF00
     else if i = 12 then 0x005C5CFF else if i = 13 then 0x00FF00FF
     else if i = 14 then 0x0000FFFF else if i = 15 then 0x00FFFFFF
     else if 16 \<le> i \<and> i < 232 then
       (let j = i - 16; r = (j div 36) * 51; g = ((j div 6) mod 6) * 51; b = (j mod 6) * 51
        in push_bit 16 (word_of_int r) OR push_bit 8 (word_of_int g) OR word_of_int b)
     else if 232 \<le> i \<and> i < 256 then
       (let gray = 8 + (i - 232) * 10
        in push_bit 16 (word_of_int gray) OR push_bit 8 (word_of_int gray) OR word_of_int gray)
     else 0)"

section \<open>The UTF-8 decoder\<close>

text \<open>
  \<^verbatim>\<open>utf8_decode(&p)\<close> with \<^verbatim>\<open>p\<close> at the start of the buffer \<open>b\<close>: the code point it returns.
  (The pointer it advances is a local of the caller that is not read again.)
\<close>

definition is_cont :: "byte \<Rightarrow> bool" where
  "is_cont c \<longleftrightarrow> c \<noteq> 0 \<and> c AND 0xC0 = 0x80"

definition utf8_decode :: "(nat \<Rightarrow> byte) \<Rightarrow> u32" where
  "utf8_decode b =
    (let c = b 0 in
     if c = 0 then 0
     else if c AND 0x80 = 0 then ucast c
     else if c AND 0xE0 = 0xC0 then
       (let cp = push_bit 6 (ucast (c AND 0x1F)) in
        if is_cont (b 1) then cp OR ucast (b 1 AND 0x3F) else cp)
     else if c AND 0xF0 = 0xE0 then
       (let cp = push_bit 12 (ucast (c AND 0x0F)) in
        if is_cont (b 1) then
          (let cp = cp OR push_bit 6 (ucast (b 1 AND 0x3F)) in
           if is_cont (b 2) then cp OR ucast (b 2 AND 0x3F) else cp)
        else cp)
     else if c AND 0xF8 = 0xF0 then
       (let cp = push_bit 18 (ucast (c AND 0x07)) in
        if is_cont (b 1) then
          (let cp = cp OR push_bit 12 (ucast (b 1 AND 0x3F)) in
           if is_cont (b 2) then
             (let cp = cp OR push_bit 6 (ucast (b 2 AND 0x3F)) in
              if is_cont (b 3) then cp OR ucast (b 3 AND 0x3F) else cp)
           else cp)
        else cp)
     else 0xFFFD)"

section \<open>Cell loops\<close>

definition in_array :: "int \<Rightarrow> int \<Rightarrow> bool" where
  "in_array y x \<longleftrightarrow> 0 \<le> y \<and> y < MAX_TERM_ROWS \<and> 0 \<le> x \<and> x < MAX_TERM_COLS"

text \<open>The three assignments \<^verbatim>\<open>.codepoint = ' '; .fg_color = ...; .bg_color = ...\<close> that
  every erase performs on a cell; \<^verbatim>\<open>.bold\<close> is not assigned.\<close>

definition blank_cell :: "u32 \<Rightarrow> u32 \<Rightarrow> cell \<Rightarrow> cell" where
  "blank_cell fg bg c = c\<lparr>codepoint := 0x20, cell_fg_color := fg, cell_bg_color := bg\<rparr>"

text \<open>\<^verbatim>\<open>for (; x < xend; x++) { cells[y][x] = blank }\<close>\<close>

function blank_cells :: "grid \<Rightarrow> int \<Rightarrow> int \<Rightarrow> int \<Rightarrow> u32 \<Rightarrow> u32 \<Rightarrow> error + grid" where
  "blank_cells g y x xend fg bg =
    (if x < xend then
       (if in_array y x
        then blank_cells (g(y := (g y)(x := blank_cell fg bg (g y x)))) y (x + 1) xend fg bg
        else Inl OutOfBounds)
     else Inr g)"
  by pat_completeness auto
termination
  by (relation "measure (\<lambda>(g, y, x, xend, fg, bg). nat (xend - x))") auto

declare blank_cells.simps [simp del]

text \<open>\<^verbatim>\<open>for (; y < yend; y++) for (x = 0; x < TERM_COLS; x++) { cells[y][x] = blank }\<close>\<close>

function blank_rows :: "grid \<Rightarrow> int \<Rightarrow> int \<Rightarrow> int \<Rightarrow> u32 \<Rightarrow> u32 \<Rightarrow> error + grid" where
  "blank_rows g y yend cols fg bg =
    (if y < yend then
       (case blank_cells g y 0 cols fg bg of
          Inl e \<Rightarrow> Inl e
        | Inr g' \<Rightarrow> blank_rows g' (y + 1) yend cols fg bg)
     else Inr g)"
  by pat_completeness auto
termination
  by (relation "measure (\<lambda>(g, y, yend, cols, fg, bg). nat (yend - y))") auto

declare blank_rows.simps [simp del]

text \<open>\<^verbatim>\<open>memcpy(cells[dst], cells[src], sizeof(struct cell) * TERM_COLS)\<close>\<close>

definition copy_row :: "grid \<Rightarrow> int \<Rightarrow> int \<Rightarrow> int \<Rightarrow> error + grid" where
  "copy_row g dst src cols =
    (if 0 \<le> dst \<and> dst < MAX_TERM_ROWS \<and> 0 \<le> src \<and> src < MAX_TERM_ROWS
        \<and> 0 \<le> cols \<and> cols \<le> MAX_TERM_COLS
     then Inr (g(dst := (\<lambda>x. if 0 \<le> x \<and> x < cols then g src x else g dst x)))
     else Inl OutOfBounds)"

text \<open>\<^verbatim>\<open>for (; y < yend; y++) memcpy(cells[y], cells[y + 1], ...)\<close>\<close>

function rows_up :: "grid \<Rightarrow> int \<Rightarrow> int \<Rightarrow> int \<Rightarrow> error + grid" where
  "rows_up g y yend cols =
    (if y < yend then
       (case copy_row g y (y + 1) cols of
          Inl e \<Rightarrow> Inl e
        | Inr g' \<Rightarrow> rows_up g' (y + 1) yend cols)
     else Inr g)"
  by pat_completeness auto
termination
  by (relation "measure (\<lambda>(g, y, yend, cols). nat (yend - y))") auto

declare rows_up.simps [simp del]

text \<open>\<^verbatim>\<open>for (; y > ylow; y--) memcpy(cells[y], cells[y - 1], ...)\<close>\<close>

function rows_down :: "grid \<Rightarrow> int \<Rightarrow> int \<Rightarrow> int \<Rightarrow> error + grid" where
  "rows_down g y ylow cols =
    (if y > ylow then
       (case copy_row g y (y - 1) cols of
          Inl e \<Rightarrow> Inl e
        | Inr g' \<Rightarrow> rows_down g' (y - 1) ylow cols)
     else Inr g)"
  by pat_completeness auto
termination
  by (relation "measure (\<lambda>(g, y, ylow, cols). nat (y - ylow))") auto

declare rows_down.simps [simp del]

text \<open>\<^verbatim>\<open>for (; x < xend; x++) cells[y][x] = cells[y][x + count]\<close>\<close>

function shift_left_cells :: "grid \<Rightarrow> int \<Rightarrow> int \<Rightarrow> int \<Rightarrow> int \<Rightarrow> error + grid" where
  "shift_left_cells g y x xend count =
    (if x < xend then
       (if in_array y x \<and> in_array y (x + count)
        then shift_left_cells (g(y := (g y)(x := g y (x + count)))) y (x + 1) xend count
        else Inl OutOfBounds)
     else Inr g)"
  by pat_completeness auto
termination
  by (relation "measure (\<lambda>(g, y, x, xend, count). nat (xend - x))") auto

declare shift_left_cells.simps [simp del]

text \<open>\<^verbatim>\<open>for (; x >= xlow; x--) cells[y][x] = cells[y][x - count]\<close>\<close>

function shift_right_cells :: "grid \<Rightarrow> int \<Rightarrow> int \<Rightarrow> int \<Rightarrow> int \<Rightarrow> error + grid" where
  "shift_right_cells g y x xlow count =
    (if x \<ge> xlow then
       (if in_array y x \<and> in_array y (x - count)
        then shift_right_cells (g(y := (g y)(x := g y (x - count)))) y (x - 1) xlow count
        else Inl OutOfBounds)
     else Inr g)"
  by pat_completeness auto
termination
  by (relation "measure (\<lambda>(g, y, x, xlow, count). nat (x - xlow + 1))") auto

declare shift_right_cells.simps [simp del]

section \<open>Terminal operations\<close>

text \<open>
  \<^verbatim>\<open>term_init\<close>, given the values of the globals \<^verbatim>\<open>TERM_COLS\<close> and \<^verbatim>\<open>TERM_ROWS\<close> that
  \<^verbatim>\<open>main\<close> has computed: \<^verbatim>\<open>memset\<close> to zero, the assignments, then the blanking loops.
\<close>

definition zero_cell :: cell where
  "zero_cell = \<lparr>codepoint = 0, cell_fg_color = 0, cell_bg_color = 0, cell_bold = 0\<rparr>"

definition term_zero :: "int \<Rightarrow> int \<Rightarrow> terminal" where
  "term_zero cols rows =
    \<lparr>TERM_COLS = cols, TERM_ROWS = rows, cells = (\<lambda>y x. zero_cell),
     cursor_x = 0, cursor_y = 0, cursor_visible = 0, fg_color = 0, bg_color = 0, bold = 0,
     scroll_top = 0, scroll_bottom = 0, master_fd = 0, state = STATE_NORMAL,
     escape_params = (\<lambda>i. 0), num_escape_params = 0, private_mode = 0,
     escape_buf_len = 0, utf8_buf = (\<lambda>i. 0), utf8_buf_len = 0, master_out = []\<rparr>"

definition term_init :: "int \<Rightarrow> int \<Rightarrow> error + terminal" where
  "term_init cols rows =
    (let t = (term_zero cols rows)
           \<lparr>fg_color := 0x00FFFFFF, bg_color := 0x00000000, scroll_bottom := rows - 1,
            cursor_visible := 1, utf8_buf_len := 0, master_fd := - 1\<rparr>
     in case blank_rows (cells t) 0 rows cols (fg_color t) (bg_color t) of
          Inl e \<Rightarrow> Inl e
        | Inr g \<Rightarrow> Inr (t\<lparr>cells := g\<rparr>))"

text \<open>The row shift followed by the blanking of row \<open>yblank\<close>: the body of
  \<^verbatim>\<open>term_scroll_up\<close> (from \<open>scroll_top\<close>) and of one round of Delete Line (from \<open>cursor_y\<close>).\<close>

definition shift_up_blank :: "terminal \<Rightarrow> int \<Rightarrow> error + terminal" where
  "shift_up_blank t ystart =
    (case rows_up (cells t) ystart (scroll_bottom t) (TERM_COLS t) of
       Inl e \<Rightarrow> Inl e
     | Inr g \<Rightarrow>
        (case blank_cells g (scroll_bottom t) 0 (TERM_COLS t) (fg_color t) (bg_color t) of
           Inl e \<Rightarrow> Inl e
         | Inr g' \<Rightarrow> Inr (t\<lparr>cells := g'\<rparr>)))"

text \<open>The mirror image: the body of \<^verbatim>\<open>term_scroll_down\<close> (down to \<open>scroll_top\<close>) and of
  one round of Insert Line (down to \<open>cursor_y\<close>).\<close>

definition shift_down_blank :: "terminal \<Rightarrow> int \<Rightarrow> error + terminal" where
  "shift_down_blank t ylow =
    (case rows_down (cells t) (scroll_bottom t) ylow (TERM_COLS t) of
       Inl e \<Rightarrow> Inl e
     | Inr g \<Rightarrow>
        (case blank_cells g ylow 0 (TERM_COLS t) (fg_color t) (bg_color t) of
           Inl e \<Rightarrow> Inl e
         | Inr g' \<Rightarrow> Inr (t\<lparr>cells := g'\<rparr>)))"

definition term_scroll_up :: "terminal \<Rightarrow> error + terminal" where
  "term_scroll_up t = shift_up_blank t (scroll_top t)"

definition term_scroll_down :: "terminal \<Rightarrow> error + terminal" where
  "term_scroll_down t = shift_down_blank t (scroll_top t)"

definition term_newline :: "terminal \<Rightarrow> error + terminal" where
  "term_newline t =
    (let t = t\<lparr>cursor_y := wrap32 (cursor_y t + 1)\<rparr> in
     if cursor_y t > scroll_bottom t
     then term_scroll_up (t\<lparr>cursor_y := scroll_bottom t\<rparr>)
     else Inr t)"

definition term_carriage_return :: "terminal \<Rightarrow> terminal" where
  "term_carriage_return t = t\<lparr>cursor_x := 0\<rparr>"

text \<open>The second half of \<^verbatim>\<open>term_putchar\<close>: the row clamp, the four assignments to the cell
  under the cursor, and the advance.\<close>

definition put_cell :: "terminal \<Rightarrow> u32 \<Rightarrow> error + terminal" where
  "put_cell t cp =
    (let t = (if cursor_y t \<ge> TERM_ROWS t then t\<lparr>cursor_y := TERM_ROWS t - 1\<rparr> else t) in
     if in_array (cursor_y t) (cursor_x t)
     then Inr (t\<lparr>cells := (cells t)(cursor_y t := (cells t (cursor_y t))(cursor_x t :=
                  \<lparr>codepoint = cp, cell_fg_color = fg_color t, cell_bg_color = bg_color t,
                   cell_bold = bold t\<rparr>)),
               cursor_x := wrap32 (cursor_x t + 1)\<rparr>)
     else Inl OutOfBounds)"

definition term_putchar :: "terminal \<Rightarrow> u32 \<Rightarrow> error + terminal" where
  "term_putchar t cp =
    (if cursor_x t \<ge> TERM_COLS t
     then (case term_newline (term_carriage_return t) of
             Inl e \<Rightarrow> Inl e
           | Inr t' \<Rightarrow> put_cell t' cp)
     else put_cell t cp)"

text \<open>\<^verbatim>\<open>for (int i = 0; i < count; i++) body\<close>, for a body that does not read \<^verbatim>\<open>i\<close>.\<close>

primrec repeat_op :: "nat \<Rightarrow> (terminal \<Rightarrow> error + terminal) \<Rightarrow> terminal \<Rightarrow> error + terminal" where
  "repeat_op 0 f t = Inr t"
| "repeat_op (Suc k) f t = (case f t of Inl e \<Rightarrow> Inl e | Inr t' \<Rightarrow> repeat_op k f t')"

section \<open>CSI dispatch\<close>

text \<open>The two expressions that read the first parameters throughout \<^verbatim>\<open>term_handle_csi\<close>:
  \<^verbatim>\<open>(n > i && p[i] > 0) ? p[i] - 1 : dflt\<close> and \<^verbatim>\<open>(n > 0 && p[0] > 0) ? p[0] : 1\<close>.\<close>

definition param_pos :: "terminal \<Rightarrow> nat \<Rightarrow> int \<Rightarrow> int" where
  "param_pos t i dflt =
    (if num_escape_params t > int i \<and> escape_params t i > 0 then escape_params t i - 1 else dflt)"

definition param_count :: "terminal \<Rightarrow> int" where
  "param_count t =
    (if num_escape_params t > 0 \<and> escape_params t 0 > 0 then escape_params t 0 else 1)"

definition csi_cursor_position :: "terminal \<Rightarrow> terminal" where
  "csi_cursor_position t =
    (let t = t\<lparr>cursor_y := param_pos t 0 0\<rparr>;
         t = t\<lparr>cursor_x := param_pos t 1 0\<rparr>;
         t = (if cursor_y t \<ge> TERM_ROWS t then t\<lparr>cursor_y := TERM_ROWS t - 1\<rparr> else t)
     in if cursor_x t \<ge> TERM_COLS t then t\<lparr>cursor_x := TERM_COLS t - 1\<rparr> else t)"

definition csi_cursor_up :: "terminal \<Rightarrow> terminal" where
  "csi_cursor_up t =
    (let t = t\<lparr>cursor_y := wrap32 (cursor_y t - param_count t)\<rparr>
     in if cursor_y t < 0 then t\<lparr>cursor_y := 0\<rparr> else t)"

definition csi_cursor_down :: "terminal \<Rightarrow> terminal" where
  "csi_cursor_down t =
    (let t = t\<lparr>cursor_y := wrap32 (cursor_y t + param_count t)\<rparr>
     in if cursor_y t \<ge> TERM_ROWS t then t\<lparr>cursor_y := TERM_ROWS t - 1\<rparr> else t)"

definition csi_cursor_forward :: "terminal \<Rightarrow> terminal" where
  "csi_cursor_forward t =
    (let t = t\<lparr>cursor_x := wrap32 (cursor_x t + param_count t)\<rparr>
     in if cursor_x t \<ge> TERM_COLS t then t\<lparr>cursor_x := TERM_COLS t - 1\<rparr> else t)"

definition csi_cursor_backward :: "terminal \<Rightarrow> terminal" where
  "csi_cursor_backward t =
    (let t = t\<lparr>cursor_x := wrap32 (cursor_x t - param_count t)\<rparr>
     in if cursor_x t < 0 then t\<lparr>cursor_x := 0\<rparr> else t)"

definition with_cells :: "terminal \<Rightarrow> error + grid \<Rightarrow> error + terminal" where
  "with_cells t r = (case r of Inl e \<Rightarrow> Inl e | Inr g \<Rightarrow> Inr (t\<lparr>cells := g\<rparr>))"

definition csi_erase_display :: "terminal \<Rightarrow> error + terminal" where
  "csi_erase_display t =
    (let n = num_escape_params t; p = escape_params t;
         fg = fg_color t; bg = bg_color t in
     if n = 0 \<or> p 0 = 0 then
       with_cells t
         (case blank_cells (cells t) (cursor_y t) (cursor_x t) (TERM_COLS t) fg bg of
            Inl e \<Rightarrow> Inl e
          | Inr g \<Rightarrow> blank_rows g (cursor_y t + 1) (TERM_ROWS t) (TERM_COLS t) fg bg)
     else if p 0 = 1 then
       with_cells t
         (case blank_rows (cells t) 0 (cursor_y t) (TERM_COLS t) fg bg of
            Inl e \<Rightarrow> Inl e
          | Inr g \<Rightarrow> blank_cells g (cursor_y t) 0 (cursor_x t + 1) fg bg)
     else if p 0 = 2 \<or> p 0 = 3 then
       with_cells t (blank_rows (cells t) 0 (TERM_ROWS t) (TERM_COLS t) fg bg)
     else Inr t)"

definition csi_erase_line :: "terminal \<Rightarrow> error + terminal" where
  "csi_erase_line t =
    (let n = num_escape_params t; p = escape_params t;
         fg = fg_color t; bg = bg_color t in
     if n = 0 \<or> p 0 = 0 then
       with_cells t (blank_cells (cells t) (cursor_y t) (cursor_x t) (TERM_COLS t) fg bg)
     else if p 0 = 1 then
       with_cells t (blank_cells (cells t) (cursor_y t) 0 (cursor_x t + 1) fg bg)
     else if p 0 = 2 then
       with_cells t (blank_cells (cells t) (cursor_y t) 0 (TERM_COLS t) fg bg)
     else Inr t)"

definition sgr_reset :: "terminal \<Rightarrow> terminal" where
  "sgr_reset t = t\<lparr>fg_color := 0x00FFFFFF, bg_color := 0x00000000, bold := 0\<rparr>"

definition sgr_apply :: "terminal \<Rightarrow> int \<Rightarrow> terminal" where
  "sgr_apply t v =
    (if v = 0 then sgr_reset t
     else if v = 1 then t\<lparr>bold := 1\<rparr>
     else if v = 22 then t\<lparr>bold := 0\<rparr>
     else if v \<ge> 30 \<and> v \<le> 37 then t\<lparr>fg_color := color_palette (v - 30)\<rparr>
     else if v = 39 then t\<lparr>fg_color := 0x00FFFFFF\<rparr>
     else if v \<ge> 40 \<and> v \<le> 47 then t\<lparr>bg_color := color_palette (v - 40)\<rparr>
     else if v = 49 then t\<lparr>bg_color := 0x00000000\<rparr>
     else if v \<ge> 90 \<and> v \<le> 97 then t\<lparr>fg_color := color_palette (v - 90 + 8)\<rparr>
     else if v \<ge> 100 \<and> v \<le> 107 then t\<lparr>bg_color := color_palette (v - 100 + 8)\<rparr>
     else t)"

text \<open>\<^verbatim>\<open>for (int i = 0; i < n; i++) body(p[i])\<close> over the parameter array, which has
  \<open>MAX_ESCAPE_PARAMS\<close> slots.\<close>

function params_loop :: "(terminal \<Rightarrow> int \<Rightarrow> terminal) \<Rightarrow> terminal \<Rightarrow> int \<Rightarrow> int \<Rightarrow> error + terminal" where
  "params_loop body t i n =
    (if i < n then
       (if 0 \<le> i \<and> i < MAX_ESCAPE_PARAMS
        then params_loop body (body t (escape_params t (nat i))) (i + 1) n
        else Inl OutOfBounds)
     else Inr t)"
  by pat_completeness auto
termination
  by (relation "measure (\<lambda>(body, t, i, n). nat (n - i))") auto

declare params_loop.simps [simp del]

definition csi_sgr :: "terminal \<Rightarrow> error + terminal" where
  "csi_sgr t =
    (let n = num_escape_params t;
         t = (if n = 0 then sgr_reset t else t)
     in params_loop sgr_apply t 0 n)"

definition set_mode_apply :: "terminal \<Rightarrow> int \<Rightarrow> terminal" where
  "set_mode_apply t v = (if v = 25 then t\<lparr>cursor_visible := 1\<rparr> else t)"

definition reset_mode_apply :: "terminal \<Rightarrow> int \<Rightarrow> terminal" where
  "reset_mode_apply t v = (if v = 25 then t\<lparr>cursor_visible := 0\<rparr> else t)"

definition csi_set_mode :: "terminal \<Rightarrow> error + terminal" where
  "csi_set_mode t =
    (if private_mode t \<noteq> 0 then params_loop set_mode_apply t 0 (num_escape_params t) else Inr t)"

definition csi_reset_mode :: "terminal \<Rightarrow> error + terminal" where
  "csi_reset_mode t =
    (if private_mode t \<noteq> 0 then params_loop reset_mode_apply t 0 (num_escape_params t) else Inr t)"

definition csi_scroll_region :: "terminal \<Rightarrow> terminal" where
  "csi_scroll_region t =
    (let t = t\<lparr>scroll_top := param_pos t 0 0\<rparr>;
         t = t\<lparr>scroll_bottom := param_pos t 1 (TERM_ROWS t - 1)\<rparr>;
         t = (if scroll_top t \<ge> TERM_ROWS t then t\<lparr>scroll_top := 0\<rparr> else t)
     in if scroll_bottom t \<ge> TERM_ROWS t then t\<lparr>scroll_bottom := TERM_ROWS t - 1\<rparr> else t)"

definition csi_line_absolute :: "terminal \<Rightarrow> terminal" where
  "csi_line_absolute t =
    (let t = t\<lparr>cursor_y := param_pos t 0 0\<rparr>
     in if cursor_y t \<ge> TERM_ROWS t then t\<lparr>cursor_y := TERM_ROWS t - 1\<rparr> else t)"

definition csi_column_absolute :: "terminal \<Rightarrow> terminal" where
  "csi_column_absolute t =
    (let t = t\<lparr>cursor_x := param_pos t 0 0\<rparr>
     in if cursor_x t \<ge> TERM_COLS t then t\<lparr>cursor_x := TERM_COLS t - 1\<rparr> else t)"

definition csi_scroll_up :: "terminal \<Rightarrow> error + terminal" where
  "csi_scroll_up t = repeat_op (nat (param_count t)) term_scroll_up t"

definition csi_scroll_down :: "terminal \<Rightarrow> error + terminal" where
  "csi_scroll_down t = repeat_op (nat (param_count t)) term_scroll_down t"

definition csi_insert_line :: "terminal \<Rightarrow> error + terminal" where
  "csi_insert_line t = repeat_op (nat (param_count t)) (\<lambda>t. shift_down_blank t (cursor_y t)) t"

definition csi_delete_line :: "terminal \<Rightarrow> error + terminal" where
  "csi_delete_line t = repeat_op (nat (param_count t)) (\<lambda>t. shift_up_blank t (cursor_y t)) t"

text \<open>Erase Characters: the loop \<^verbatim>\<open>for (i = 0; i < count && cursor_x + i < TERM_COLS; i++)\<close>
  visits the columns \<open>cursor_x + i\<close>, that is the columns from \<open>cursor_x\<close> up to, and
  without, the smaller of \<open>cursor_x + count\<close> and \<open>TERM_COLS\<close>.\<close>

definition csi_erase_chars :: "terminal \<Rightarrow> error + terminal" where
  "csi_erase_chars t =
    (let count = param_count t in
     with_cells t
       (blank_cells (cells t) (cursor_y t) (cursor_x t)
          (min (cursor_x t + count) (TERM_COLS t)) (fg_color t) (bg_color t)))"

definition csi_delete_chars :: "terminal \<Rightarrow> error + terminal" where
  "csi_delete_chars t =
    (let count = param_count t in
     with_cells t
       (case shift_left_cells (cells t) (cursor_y t) (cursor_x t) (TERM_COLS t - count) count of
          Inl e \<Rightarrow> Inl e
        | Inr g \<Rightarrow>
            blank_cells g (cursor_y t) (TERM_COLS t - count) (TERM_COLS t)
              (fg_color t) (bg_color t)))"

definition csi_insert_chars :: "terminal \<Rightarrow> error + terminal" where
  "csi_insert_chars t =
    (let count = param_count t; xlim = wrap32 (cursor_x t + count) in
     with_cells t
       (case shift_right_cells (cells t) (cursor_y t) (TERM_COLS t - 1) xlim count of
          Inl e \<Rightarrow> Inl e
        | Inr g \<Rightarrow>
            blank_cells g (cursor_y t) (cursor_x t) (min xlim (TERM_COLS t))
              (fg_color t) (bg_color t)))"

section \<open>Replies to the PTY master\<close>

text \<open>The digits that \<^verbatim>\<open>%d\<close> prints.\<close>

fun dec :: "nat \<Rightarrow> byte list" where
  "dec n = (if n < 10 then [of_nat (48 + n)] else dec (n div 10) @ [of_nat (48 + n mod 10)])"

declare dec.simps [simp del]

definition fmt_d :: "int \<Rightarrow> byte list" where
  "fmt_d i = (if i < 0 then 0x2D # dec (nat (- i)) else dec (nat i))"

text \<open>\<^verbatim>\<open>if (term->master_fd >= 0) write(term->master_fd, response, len)\<close>\<close>

definition master_write :: "terminal \<Rightarrow> byte list \<Rightarrow> terminal" where
  "master_write t bs = (if master_fd t \<ge> 0 then t\<lparr>master_out := master_out t @ bs\<rparr> else t)"

definition csi_device_status :: "terminal \<Rightarrow> terminal" where
  "csi_device_status t =
    (let n = num_escape_params t; p = escape_params t in
     if n > 0 \<and> p 0 = 6 then
       master_write t ([0x1B, 0x5B] @ fmt_d (wrap32 (cursor_y t + 1)) @ [0x3B]
                        @ fmt_d (wrap32 (cursor_x t + 1)) @ [0x52])
     else if n > 0 \<and> p 0 = 5 then master_write t [0x1B, 0x5B, 0x30, 0x6E]
     else t)"

definition csi_device_attrs :: "terminal \<Rightarrow> terminal" where
  "csi_device_attrs t = master_write t [0x1B, 0x5B, 0x3F, 0x31, 0x3B, 0x32, 0x63]"

definition term_handle_csi :: "terminal \<Rightarrow> byte \<Rightarrow> error + terminal" where
  "term_handle_csi t final =
    (if final = 0x48 \<or> final = 0x66 then Inr (csi_cursor_position t)
     else if final = 0x41 then Inr (csi_cursor_up t)
     else if final = 0x42 then Inr (csi_cursor_down t)
     else if final = 0x43 then Inr (csi_cursor_forward t)
     else if final = 0x44 then Inr (csi_cursor_backward t)
     else if final = 0x4A then csi_erase_display t
     else if final = 0x4B then csi_erase_line t
     else if final = 0x6D then csi_sgr t
     else if final = 0x68 then csi_set_mode t
     else if final = 0x6C then csi_reset_mode t
     else if final = 0x72 then Inr (csi_scroll_region t)
     else if final = 0x64 then Inr (csi_line_absolute t)
     else if final = 0x47 then Inr (csi_column_absolute t)
     else if final = 0x53 then csi_scroll_up t
     else if final = 0x54 then csi_scroll_down t
     else if final = 0x4C then csi_insert_line t
     else if final = 0x4D then csi_delete_line t
     else if final = 0x58 then csi_erase_chars t
     else if final = 0x50 then csi_delete_chars t
     else if final = 0x40 then csi_insert_chars t
     else if final = 0x6E then Inr (csi_device_status t)
     else if final = 0x63 then Inr (csi_device_attrs t)
     else Inr t)"

section \<open>The parser\<close>

definition expected_len :: "byte \<Rightarrow> int" where
  "expected_len b0 =
    (if b0 AND 0x80 = 0 then 1
     else if b0 AND 0xE0 = 0xC0 then 2
     else if b0 AND 0xF0 = 0xE0 then 3
     else if b0 AND 0xF8 = 0xF0 then 4
     else 1)"

definition normal_printable :: "terminal \<Rightarrow> byte \<Rightarrow> error + terminal" where
  "normal_printable t ch =
    (if 0 \<le> utf8_buf_len t \<and> utf8_buf_len t < 4 then
       (let t = t\<lparr>utf8_buf := (utf8_buf t)(nat (utf8_buf_len t) := ch),
                  utf8_buf_len := utf8_buf_len t + 1\<rparr>
        in if utf8_buf_len t \<ge> expected_len (utf8_buf t 0)
           then (case term_putchar t (utf8_decode (utf8_buf t)) of
                   Inl e \<Rightarrow> Inl e
                 | Inr t' \<Rightarrow> Inr (t'\<lparr>utf8_buf_len := 0\<rparr>))
           else Inr t)
     else Inl OutOfBounds)"

definition process_normal :: "terminal \<Rightarrow> byte \<Rightarrow> error + terminal" where
  "process_normal t ch =
    (if ch = 0x1B then
       Inr (t\<lparr>state := STATE_ESC, escape_buf_len := 0, utf8_buf_len := 0\<rparr>)
     else if ch = 0x0A then
       (case term_newline t of Inl e \<Rightarrow> Inl e | Inr t' \<Rightarrow> Inr (t'\<lparr>utf8_buf_len := 0\<rparr>))
     else if ch = 0x0D then
       Inr ((term_carriage_return t)\<lparr>utf8_buf_len := 0\<rparr>)
     else if ch = 0x08 then
       Inr ((if cursor_x t > 0 then t\<lparr>cursor_x := cursor_x t - 1\<rparr> else t)\<lparr>utf8_buf_len := 0\<rparr>)
     else if ch = 0x09 then
       (let t = t\<lparr>cursor_x := wrap32 (cursor_x t + 8) AND NOT 7\<rparr> in
        if cursor_x t \<ge> TERM_COLS t
        then (case term_newline (t\<lparr>cursor_x := 0\<rparr>) of
                Inl e \<Rightarrow> Inl e
              | Inr t' \<Rightarrow> Inr (t'\<lparr>utf8_buf_len := 0\<rparr>))
        else Inr (t\<lparr>utf8_buf_len := 0\<rparr>))
     else if ch \<ge> 32 then normal_printable t ch
     else Inr t)"

definition process_esc :: "terminal \<Rightarrow> byte \<Rightarrow> terminal" where
  "process_esc t ch =
    (if ch = 0x5B then
       t\<lparr>state := STATE_CSI, num_escape_params := 0, private_mode := 0,
         escape_params := (\<lambda>i. 0), escape_buf_len := 0\<rparr>
     else if ch = 0x5D then t\<lparr>state := STATE_OSC, escape_buf_len := 0\<rparr>
     else if ch = 0x28 then t\<lparr>state := STATE_NORMAL\<rparr>
     else t\<lparr>state := STATE_NORMAL\<rparr>)"

definition process_csi :: "terminal \<Rightarrow> byte \<Rightarrow> error + terminal" where
  "process_csi t ch =
    (if ch \<ge> 0x30 \<and> ch \<le> 0x39 then
       (let t = (if num_escape_params t = 0 then t\<lparr>num_escape_params := 1\<rparr> else t);
            i = num_escape_params t - 1 in
        if 0 \<le> i \<and> i < MAX_ESCAPE_PARAMS then
          Inr (t\<lparr>escape_params := (escape_params t)
                   (nat i := wrap32 (wrap32 (escape_params t (nat i) * 10) + (uint ch - 48)))\<rparr>)
        else Inl OutOfBounds)
     else if ch = 0x3B then
       Inr (if num_escape_params t < MAX_ESCAPE_PARAMS
            then t\<lparr>num_escape_params := num_escape_params t + 1\<rparr> else t)
     else if ch = 0x3F then Inr (t\<lparr>private_mode := 1\<rparr>)
     else if ch \<ge> 0x40 \<and> ch \<le> 0x7E then
       (case term_handle_csi t ch of
          Inl e \<Rightarrow> Inl e
        | Inr t' \<Rightarrow> Inr (t'\<lparr>state := STATE_NORMAL, private_mode := 0\<rparr>))
     else if ch \<ge> 0x20 \<and> ch \<le> 0x2F then Inr t
     else Inr (t\<lparr>state := STATE_NORMAL, private_mode := 0\<rparr>))"

definition process_osc :: "terminal \<Rightarrow> byte \<Rightarrow> terminal" where
  "process_osc t ch = (if ch = 0x07 \<or> ch = 0x1B then t\<lparr>state := STATE_NORMAL\<rparr> else t)"

definition term_process_char :: "terminal \<Rightarrow> byte \<Rightarrow> error + terminal" where
  "term_process_char t ch =
    (case state t of
       STATE_NORMAL \<Rightarrow> process_normal t ch
     | STATE_ESC \<Rightarrow> Inr (process_esc t ch)
     | STATE_CSI \<Rightarrow> process_csi t ch
     | STATE_OSC \<Rightarrow> Inr (process_osc t ch))"

text \<open>The loop of \<^verbatim>\<open>main\<close> over the bytes read from the PTY master:
  \<^verbatim>\<open>for (i = 0; i < n; i++) term_process_char(&term, buf[i])\<close>.\<close>

fun term_feed :: "terminal \<Rightarrow> byte list \<Rightarrow> error + terminal" where
  "term_feed t [] = Inr t"
| "term_feed t (b # bs) =
    (case term_process_char t b of Inl e \<Rightarrow> Inl e | Inr t' \<Rightarrow> term_feed t' bs)"

section \<open>Start-up and observations\<close>

text \<open>What \<^verbatim>\<open>main\<close> does with the terminal: \<^verbatim>\<open>term_init\<close>, the assignment of the PTY master
  descriptor \<open>fd\<close>, then the bytes \<open>bs\<close> read from the master, in order.\<close>

definition run :: "int \<Rightarrow> int \<Rightarrow> int \<Rightarrow> byte list \<Rightarrow> error + terminal" where
  "run cols rows fd bs =
    (case term_init cols rows of
       Inl e \<Rightarrow> Inl e
     | Inr t \<Rightarrow> term_feed (t\<lparr>master_fd := fd\<rparr>) bs)"

text \<open>Reading a field off the outcome of a run.\<close>

definition obs :: "(terminal \<Rightarrow> 'a) \<Rightarrow> error + terminal \<Rightarrow> error + 'a" where
  "obs f r = (case r of Inl e \<Rightarrow> Inl e | Inr t \<Rightarrow> Inr (f t))"

definition cell_at :: "int \<Rightarrow> int \<Rightarrow> terminal \<Rightarrow> cell" where
  "cell_at y x t = cells t y x"

definition cp_at :: "int \<Rightarrow> int \<Rightarrow> terminal \<Rightarrow> u32" where
  "cp_at y x t = codepoint (cells t y x)"

text \<open>The cell that \<^verbatim>\<open>term_init\<close> leaves everywhere in the grid: a space, white on black.\<close>

definition blank0 :: cell where
  "blank0 = \<lparr>codepoint = 0x20, cell_fg_color = 0x00FFFFFF, cell_bg_color = 0, cell_bold = 0\<rparr>"

section \<open>The key mapper of fb\_map.c\<close>

text \<open>
  The key codes are those of the Linux header \<^verbatim>\<open>linux/input-event-codes.h\<close>, which fb\_map.c
  includes through \<^verbatim>\<open>linux/input.h\<close>. The letters are laid out by keyboard row, not
  alphabetically.
\<close>

abbreviation (input) KEY_ESC :: int where "KEY_ESC \<equiv> 1"
abbreviation (input) KEY_1 :: int where "KEY_1 \<equiv> 2"
abbreviation (input) KEY_9 :: int where "KEY_9 \<equiv> 10"
abbreviation (input) KEY_0 :: int where "KEY_0 \<equiv> 11"
abbreviation (input) KEY_MINUS :: int where "KEY_MINUS \<equiv> 12"
abbreviation (input) KEY_EQUAL :: int where "KEY_EQUAL \<equiv> 13"
abbreviation (input) KEY_BACKSPACE :: int where "KEY_BACKSPACE \<equiv> 14"
abbreviation (input) KEY_TAB :: int where "KEY_TAB \<equiv> 15"
abbreviation (input) KEY_Q :: int where "KEY_Q \<equiv> 16"
abbreviation (input) KEY_W :: int where "KEY_W \<equiv> 17"
abbreviation (input) KEY_E :: int where "KEY_E \<equiv> 18"
abbreviation (input) KEY_R :: int where "KEY_R \<equiv> 19"
abbreviation (input) KEY_T :: int where "KEY_T \<equiv> 20"
abbreviation (input) KEY_Y :: int where "KEY_Y \<equiv> 21"
abbreviation (input) KEY_U :: int where "KEY_U \<equiv> 22"
abbreviation (input) KEY_I :: int where "KEY_I \<equiv> 23"
abbreviation (input) KEY_O :: int where "KEY_O \<equiv> 24"
abbreviation (input) KEY_P :: int where "KEY_P \<equiv> 25"
abbreviation (input) KEY_LEFTBRACE :: int where "KEY_LEFTBRACE \<equiv> 26"
abbreviation (input) KEY_RIGHTBRACE :: int where "KEY_RIGHTBRACE \<equiv> 27"
abbreviation (input) KEY_ENTER :: int where "KEY_ENTER \<equiv> 28"
abbreviation (input) KEY_LEFTCTRL :: int where "KEY_LEFTCTRL \<equiv> 29"
abbreviation (input) KEY_A :: int where "KEY_A \<equiv> 30"
abbreviation (input) KEY_S :: int where "KEY_S \<equiv> 31"
abbreviation (input) KEY_D :: int where "KEY_D \<equiv> 32"
abbreviation (input) KEY_F :: int where "KEY_F \<equiv> 33"
abbreviation (input) KEY_G :: int where "KEY_G \<equiv> 34"
abbreviation (input) KEY_H :: int where "KEY_H \<equiv> 35"
abbreviation (input) KEY_J :: int where "KEY_J \<equiv> 36"
abbreviation (input) KEY_K :: int where "KEY_K \<equiv> 37"
abbreviation (input) KEY_L :: int where "KEY_L \<equiv> 38"
abbreviation (input) KEY_SEMICOLON :: int where "KEY_SEMICOLON \<equiv> 39"
abbreviation (input) KEY_APOSTROPHE :: int where "KEY_APOSTROPHE \<equiv> 40"
abbreviation (input) KEY_GRAVE :: int where "KEY_GRAVE \<equiv> 41"
abbreviation (input) KEY_LEFTSHIFT :: int where "KEY_LEFTSHIFT \<equiv> 42"
abbreviation (input) KEY_BACKSLASH :: int where "KEY_BACKSLASH \<equiv> 43"
abbreviation (input) KEY_Z :: int where "KEY_Z \<equiv> 44"
abbreviation (input) KEY_X :: int where "KEY_X \<equiv> 45"
abbreviation (input) KEY_C :: int where "KEY_C \<equiv> 46"
abbreviation (input) KEY_V :: int where "KEY_V \<equiv> 47"
abbreviation (input) KEY_B :: int where "KEY_B \<equiv> 48"
abbreviation (input) KEY_N :: int where "KEY_N \<equiv> 49"
abbreviation (input) KEY_M :: int where "KEY_M \<equiv> 50"
abbreviation (input) KEY_COMMA :: int where "KEY_COMMA \<equiv> 51"
abbreviation (input) KEY_DOT :: int where "KEY_DOT \<equiv> 52"
abbreviation (input) KEY_SLASH :: int where "KEY_SLASH \<equiv> 53"
abbreviation (input) KEY_RIGHTSHIFT :: int where "KEY_RIGHTSHIFT \<equiv> 54"
abbreviation (input) KEY_LEFTALT :: int where "KEY_LEFTALT \<equiv> 56"
abbreviation (input) KEY_SPACE :: int where "KEY_SPACE \<equiv> 57"
abbreviation (input) KEY_RIGHTCTRL :: int where "KEY_RIGHTCTRL \<equiv> 97"
abbreviation (input) KEY_RIGHTALT :: int where "KEY_RIGHTALT \<equiv> 100"
abbreviation (input) KEY_HOME :: int where "KEY_HOME \<equiv> 102"
abbreviation (input) KEY_UP :: int where "KEY_UP \<equiv> 103"
abbreviation (input) KEY_PAGEUP :: int where "KEY_PAGEUP \<equiv> 104"
abbreviation (input) KEY_LEFT :: int where "KEY_LEFT \<equiv> 105"
abbreviation (input) KEY_RIGHT :: int where "KEY_RIGHT \<equiv> 106"
abbreviation (input) KEY_END :: int where "KEY_END \<equiv> 107"
abbreviation (input) KEY_DOWN :: int where "KEY_DOWN \<equiv> 108"
abbreviation (input) KEY_PAGEDOWN :: int where "KEY_PAGEDOWN \<equiv> 109"
abbreviation (input) KEY_INSERT :: int where "KEY_INSERT \<equiv> 110"
abbreviation (input) KEY_DELETE :: int where "KEY_DELETE \<equiv> 111"

text \<open>The modifier flags among the static variables of fb\_map.c; the others are read only
  by \<^verbatim>\<open>kb_process_input\<close>.\<close>

record kb_state =
  ctrl_pressed :: int
  alt_pressed :: int
  shift_pressed :: int

definition kb_init :: kb_state where
  "kb_init = \<lparr>ctrl_pressed = 0, alt_pressed = 0, shift_pressed = 0\<rparr>"

text \<open>A key whose two characters depend on Shift: \<^verbatim>\<open>seq[0] = shift_pressed ? a : b\<close>.\<close>

definition shifted :: "kb_state \<Rightarrow> byte \<Rightarrow> byte \<Rightarrow> byte list" where
  "shifted s a b = [if shift_pressed s \<noteq> 0 then a else b]"

text \<open>\<^verbatim>\<open>kb_get_sequence\<close>: the string it returns (without the terminating NUL) and the
  modifier state it leaves.\<close>

definition kb_get_sequence :: "kb_state \<Rightarrow> int \<Rightarrow> byte list \<times> kb_state" where
  "kb_get_sequence s keycode =
    (if keycode = KEY_LEFTCTRL \<or> keycode = KEY_RIGHTCTRL then ([], s\<lparr>ctrl_pressed := 1\<rparr>)
     else if keycode = KEY_LEFTSHIFT \<or> keycode = KEY_RIGHTSHIFT then ([], s\<lparr>shift_pressed := 1\<rparr>)
     else if keycode = KEY_LEFTALT \<or> keycode = KEY_RIGHTALT then ([], s\<lparr>alt_pressed := 1\<rparr>)
     else if keycode = KEY_UP then ([0x1B, 0x5B, 0x41], s)
     else if keycode = KEY_DOWN then ([0x1B, 0x5B, 0x42], s)
     else if keycode = KEY_RIGHT then ([0x1B, 0x5B, 0x43], s)
     else if keycode = KEY_LEFT then ([0x1B, 0x5B, 0x44], s)
     else if keycode = KEY_HOME then ([0x1B, 0x5B, 0x48], s)
     else if keycode = KEY_END then ([0x1B, 0x5B, 0x46], s)
     else if keycode = KEY_PAGEUP then ([0x1B, 0x5B, 0x35, 0x7E], s)
     else if keycode = KEY_PAGEDOWN then ([0x1B, 0x5B, 0x36, 0x7E], s)
     else if keycode = KEY_INSERT then ([0x1B, 0x5B, 0x32, 0x7E], s)
     else if keycode = KEY_DELETE then ([0x1B, 0x5B, 0x33, 0x7E], s)
     else if keycode = KEY_ENTER then ([0x0D], s)
     else if keycode = KEY_TAB then ([0x09], s)
     else if keycode = KEY_BACKSPACE then ([0x7F], s)
     else if keycode = KEY_ESC then ([0x1B], s)
     else if keycode = KEY_SPACE then ([0x20], s)
     else if ctrl_pressed s \<noteq> 0 \<and> keycode = KEY_C then ([0x03], s)
     else if ctrl_pressed s \<noteq> 0 \<and> keycode = KEY_D then ([0x04], s)
     else if ctrl_pressed s \<noteq> 0 \<and> keycode = KEY_Z then ([0x1A], s)
     else if ctrl_pressed s \<noteq> 0 \<and> keycode = KEY_L then ([0x0C], s)
     else if ctrl_pressed s \<noteq> 0 \<and> keycode = KEY_A then ([0x01], s)
     else if ctrl_pressed s \<noteq> 0 \<and> keycode = KEY_E then ([0x05], s)
     else if ctrl_pressed s \<noteq> 0 \<and> keycode = KEY_K then ([0x0B], s)
     else if ctrl_pressed s \<noteq> 0 \<and> keycode = KEY_U then ([0x15], s)
     else if ctrl_pressed s \<noteq> 0 \<and> keycode = KEY_W then ([0x17], s)
     else if ctrl_pressed s \<noteq> 0 \<and> keycode = KEY_R then ([0x12], s)
     else if keycode \<ge> KEY_A \<and> keycode \<le> KEY_Z then
       (let idx = keycode - KEY_A
        in ([if shift_pressed s \<noteq> 0 then word_of_int (65 + idx) else word_of_int (97 + idx)], s))
     else if keycode \<ge> KEY_1 \<and> keycode \<le> KEY_9 then
       ([if shift_pressed s \<noteq> 0
         then [0x21, 0x40, 0x23, 0x24, 0x25, 0x5E, 0x26, 0x2A, 0x28] ! nat (keycode - KEY_1)
         else word_of_int (49 + (keycode - KEY_1))], s)
     else if keycode = KEY_0 then (shifted s 0x29 0x30, s)
     else if keycode = KEY_MINUS then (shifted s 0x5F 0x2D, s)
     else if keycode = KEY_EQUAL then (shifted s 0x2B 0x3D, s)
     else if keycode = KEY_LEFTBRACE then (shifted s 0x7B 0x5B, s)
     else if keycode = KEY_RIGHTBRACE then (shifted s 0x7D 0x5D, s)
     else if keycode = KEY_SEMICOLON then (shifted s 0x3A 0x3B, s)
     else if keycode = KEY_APOSTROPHE then (shifted s 0x22 0x27, s)
     else if keycode = KEY_GRAVE then (shifted s 0x7E 0x60, s)
     else if keycode = KEY_BACKSLASH then (shifted s 0x7C 0x5C, s)
     else if keycode = KEY_COMMA then (shifted s 0x3C 0x2C, s)
     else if keycode = KEY_DOT then (shifted s 0x3E 0x2E, s)
     else if keycode = KEY_SLASH then (shifted s 0x3F 0x2F, s)
     else ([], s))"

text \<open>The claim's side of the key mapper: the letter keys with their position in the
  alphabet, which is the C0 control byte of Ctrl plus that letter (Ctrl+A is 1, Ctrl+Z is 26).\<close>

definition letter_keys :: "(int \<times> byte) list" where
  "letter_keys =
    [(KEY_A, 1), (KEY_B, 2), (KEY_C, 3), (KEY_D, 4), (KEY_E, 5), (KEY_F, 6), (KEY_G, 7),
     (KEY_H, 8), (KEY_I, 9), (KEY_J, 10), (KEY_K, 11), (KEY_L, 12), (KEY_M, 13), (KEY_N, 14),
     (KEY_O, 15), (KEY_P, 16), (KEY_Q, 17), (KEY_R, 18), (KEY_S, 19), (KEY_T, 20), (KEY_U, 21),
     (KEY_V, 22), (KEY_W, 23), (KEY_X, 24), (KEY_Y, 25), (KEY_Z, 26)]"

text \<open>The letters that the Ctrl block of \<^verbatim>\<open>kb_get_sequence\<close> lists.\<close>

definition ctrl_mapped_keys :: "int list" where
  "ctrl_mapped_keys = [KEY_C, KEY_D, KEY_Z, KEY_L, KEY_A, KEY_E, KEY_K, KEY_U, KEY_W, KEY_R]"

section \<open>Predicates of the invariants\<close>

text \<open>The grid dimensions and the scroll region of \<open>t'\<close> are those of \<open>t\<close>.\<close>

definition same_frame :: "terminal \<Rightarrow> terminal \<Rightarrow> bool" where
  "same_frame t t' \<longleftrightarrow> TERM_COLS t' = TERM_COLS t \<and> TERM_ROWS t' = TERM_ROWS t
     \<and> scroll_top t' = scroll_top t \<and> scroll_bottom t' = scroll_bottom t"


text \<open>\<open>P\<close> holds of the result, if there is one.\<close>

definition ok_then :: "('a \<Rightarrow> bool) \<Rightarrow> error + 'a \<Rightarrow> bool" where
  "ok_then P r = (case r of Inl e \<Rightarrow> True | Inr t \<Rightarrow> P t)"


text \<open>The scroll-region invariant as the specification states it.\<close>

definition region_ordered :: "terminal \<Rightarrow> bool" where
  "region_ordered t \<longleftrightarrow> 0 \<le> scroll_top t \<and> scroll_top t \<le> scroll_bottom t
     \<and> scroll_bottom t < TERM_ROWS t"

section \<open>Well-formed terminals and the grids after a scroll\<close>

text \<open>The state that \<^verbatim>\<open>main\<close> establishes and the cursor and region operations keep: the grid
  fits the array, the cursor is in the grid or at the pending-wrap column \<open>TERM_COLS\<close>, and both
  bounds of the scroll region are rows of the grid.\<close>

definition term_ok :: "terminal \<Rightarrow> bool" where
  "term_ok t \<longleftrightarrow>
     0 < TERM_COLS t \<and> TERM_COLS t \<le> MAX_TERM_COLS \<and> 0 < TERM_ROWS t \<and> TERM_ROWS t \<le> MAX_TERM_ROWS
     \<and> 0 \<le> cursor_x t \<and> cursor_x t \<le> TERM_COLS t \<and> 0 \<le> cursor_y t \<and> cursor_y t < TERM_ROWS t
     \<and> 0 \<le> scroll_top t \<and> scroll_top t < TERM_ROWS t
     \<and> 0 \<le> scroll_bottom t \<and> scroll_bottom t < TERM_ROWS t"

text \<open>The grid after the rows \<open>ystart..bottom\<close> have moved up by one and row \<open>bottom\<close> has been
  blanked, and its mirror image.\<close>

definition up_grid :: "grid \<Rightarrow> int \<Rightarrow> int \<Rightarrow> int \<Rightarrow> u32 \<Rightarrow> u32 \<Rightarrow> grid" where
  "up_grid g ystart bottom cols fg bg =
    (\<lambda>y x. if 0 \<le> x \<and> x < cols
            then (if ystart \<le> y \<and> y < bottom then g (y + 1) x
                  else if y = bottom then blank_cell fg bg (g bottom x) else g y x)
            else g y x)"

definition down_grid :: "grid \<Rightarrow> int \<Rightarrow> int \<Rightarrow> int \<Rightarrow> u32 \<Rightarrow> u32 \<Rightarrow> grid" where
  "down_grid g ylow bottom cols fg bg =
    (\<lambda>y x. if 0 \<le> x \<and> x < cols
            then (if ylow < y \<and> y \<le> bottom then g (y - 1) x
                  else if y = ylow then blank_cell fg bg (g ylow x) else g y x)
            else g y x)"

text \<open>The cell that \<^verbatim>\<open>term_putchar\<close> stores: the code point with the current SGR state.\<close>

definition stamp :: "terminal \<Rightarrow> u32 \<Rightarrow> cell" where
  "stamp t cp = \<lparr>codepoint = cp, cell_fg_color = fg_color t, cell_bg_color = bg_color t,
                 cell_bold = bold t\<rparr>"

section \<open>UTF-8 on the claim's side\<close>

text \<open>The canonical UTF-8 encoding of a code point (RFC 3629), which the source does not
  contain: the claims about the decoder are stated against it.\<close>

definition utf8_encode :: "u32 \<Rightarrow> byte list" where
  "utf8_encode c =
    (if c < 0x80 then [ucast c]
     else if c < 0x800 then [0xC0 OR ucast (drop_bit 6 c), 0x80 OR ucast (c AND 0x3F)]
     else if c < 0x10000 then
       [0xE0 OR ucast (drop_bit 12 c), 0x80 OR ucast (drop_bit 6 c AND 0x3F),
        0x80 OR ucast (c AND 0x3F)]
     else
       [0xF0 OR ucast (drop_bit 18 c), 0x80 OR ucast (drop_bit 12 c AND 0x3F),
        0x80 OR ucast (drop_bit 6 c AND 0x3F), 0x80 OR ucast (c AND 0x3F)])"

definition unicode_scalar :: "u32 \<Rightarrow> bool" where
  "unicode_scalar c \<longleftrightarrow> c \<le> 0x10FFFF \<and> \<not> (0xD800 \<le> c \<and> c \<le> 0xDFFF)"

section \<open>The completed sequence\<close>

text \<open>What \<^verbatim>\<open>term_process_char\<close> does once a UTF-8 sequence is complete: \<^verbatim>\<open>term_putchar\<close> with the decoded code point, then \<open>utf8_buf_len = 0\<close>.\<close>

definition after_put :: "terminal \<Rightarrow> u32 \<Rightarrow> error + terminal" where
  "after_put t c = (case term_putchar t c of Inl e \<Rightarrow> Inl e | Inr t' \<Rightarrow> Inr (t'\<lparr>utf8_buf_len := 0\<rparr>))"

section \<open>The parser at the start of a control sequence\<close>

text \<open>The state after ESC \<^verbatim>\<open>[\<close> from \<open>STATE_NORMAL\<close>, and the slot of the parameter array that
  the next digit is accumulated into.\<close>

definition csi_start :: "terminal \<Rightarrow> terminal" where
  "csi_start t = t\<lparr>state := STATE_CSI, escape_buf_len := 0, utf8_buf_len := 0,
     num_escape_params := 0, private_mode := 0, escape_params := (\<lambda>i. 0)\<rparr>"

definition slot :: "terminal \<Rightarrow> nat" where
  "slot t = nat (max 1 (num_escape_params t) - 1)"

section \<open>The scroll region after repeated scrolls\<close>

text \<open>The grid after \<open>k\<close> scrolls up, and after \<open>k\<close> scrolls down, of the region \<open>ytop..bottom\<close>:
  rows move by \<open>k\<close>, and the rows that run out of the region are blanked copies of the
  region's last (first) row.\<close>

definition up_n :: "grid \<Rightarrow> int \<Rightarrow> int \<Rightarrow> int \<Rightarrow> u32 \<Rightarrow> u32 \<Rightarrow> nat \<Rightarrow> grid" where
  "up_n g ytop bottom cols fg bg k =
    (\<lambda>y x. if 0 \<le> x \<and> x < cols \<and> ytop \<le> y \<and> y \<le> bottom
            then (if y + int k \<le> bottom then g (y + int k) x else blank_cell fg bg (g bottom x))
            else g y x)"

definition down_n :: "grid \<Rightarrow> int \<Rightarrow> int \<Rightarrow> int \<Rightarrow> u32 \<Rightarrow> u32 \<Rightarrow> nat \<Rightarrow> grid" where
  "down_n g ytop bottom cols fg bg k =
    (\<lambda>y x. if 0 \<le> x \<and> x < cols \<and> ytop \<le> y \<and> y \<le> bottom
            then (if ytop \<le> y - int k then g (y - int k) x else blank_cell fg bg (g ytop x))
            else g y x)"

text \<open>A blank cell in the current SGR colours, as an erase leaves it; the rows at both edges
  of the scroll region that \<open>k\<close> scrolls erase; and equality of what a cell shows.\<close>

definition is_blank :: "terminal \<Rightarrow> cell \<Rightarrow> bool" where
  "is_blank t c \<longleftrightarrow>
     codepoint c = 0x20 \<and> cell_fg_color c = fg_color t \<and> cell_bg_color c = bg_color t"

definition edges_blank :: "nat \<Rightarrow> terminal \<Rightarrow> bool" where
  "edges_blank k t \<longleftrightarrow>
     (\<forall>y x. 0 \<le> x \<and> x < TERM_COLS t
        \<and> (scroll_top t \<le> y \<and> y < scroll_top t + int k
             \<or> scroll_bottom t - int k < y \<and> y \<le> scroll_bottom t)
        \<longrightarrow> is_blank t (cells t y x))"

definition same_glyph :: "cell \<Rightarrow> cell \<Rightarrow> bool" where
  "same_glyph c c' \<longleftrightarrow>
     codepoint c = codepoint c' \<and> cell_fg_color c = cell_fg_color c'
     \<and> cell_bg_color c = cell_bg_color c'"

text \<open>The bytes of ESC \<^verbatim>\<open>[ k S\<close> followed by ESC \<^verbatim>\<open>[ k T\<close>.\<close>

definition scroll_pair :: "nat \<Rightarrow> byte list" where
  "scroll_pair k = [0x1B, 0x5B] @ dec k @ [0x53] @ [0x1B, 0x5B] @ dec k @ [0x54]"

section \<open>The range of the stored code points\<close>

text \<open>Every cell of the grid holds a code point below \<open>0x200000\<close>, that is of at most 21 bits:
  all that the four-byte form of \<^verbatim>\<open>utf8_decode\<close> can produce.\<close>

definition grid_bounded :: "grid \<Rightarrow> bool" where
  "grid_bounded g \<longleftrightarrow> (\<forall>y x. codepoint (g y x) < 0x200000)"

text \<open>The invariant on terminals: the grid holds bounded code points.\<close>

definition cp_inv :: "terminal \<Rightarrow> bool" where
  "cp_inv t \<longleftrightarrow> grid_bounded (cells t)"

section \<open>The loops in closed form\<close>

lemma blank_cell_idem [simp]: "blank_cell fg bg (blank_cell fg bg c) = blank_cell fg bg c"
  by (simp add: blank_cell_def)

lemma blank_cells_eq:
  "blank_cells g y x xend fg bg =
    (if x < xend \<and> \<not> (0 \<le> y \<and> y < 200 \<and> 0 \<le> x \<and> xend \<le> 500) then Inl OutOfBounds
     else Inr (\<lambda>y' x'. if y' = y \<and> x \<le> x' \<and> x' < xend
                        then blank_cell fg bg (g y' x') else g y' x'))"
proof (induction g y x xend fg bg rule: blank_cells.induct)
  case (1 g y x xend fg bg)
  show ?case
  proof (cases "x < xend")
    case False
    then show ?thesis by (subst blank_cells.simps) (auto simp: fun_eq_iff)
  next
    case True
    show ?thesis
    proof (cases "in_array y x")
      case False
      with True show ?thesis by (subst blank_cells.simps) (auto simp: in_array_def)
    next
      case ia: True
      let ?g = "g(y := (g y)(x := blank_cell fg bg (g y x)))"
      have step: "blank_cells g y x xend fg bg = blank_cells ?g y (x + 1) xend fg bg"
        using True ia by (subst blank_cells.simps) simp
      have fe: "(\<lambda>y' x'. if y' = y \<and> x + 1 \<le> x' \<and> x' < xend
                          then blank_cell fg bg (?g y' x') else ?g y' x')
           = (\<lambda>y' x'. if y' = y \<and> x \<le> x' \<and> x' < xend
                          then blank_cell fg bg (g y' x') else g y' x')"
        using True by (auto simp: fun_eq_iff)
      show ?thesis
        unfolding step "1.IH"[OF True ia] fe
        using True ia by (auto simp: in_array_def)
    qed
  qed
qed

lemma blank_rows_eq:
  "blank_rows g y yend cols fg bg =
    (if y < yend \<and> 0 < cols \<and> \<not> (0 \<le> y \<and> yend \<le> 200 \<and> cols \<le> 500) then Inl OutOfBounds
     else Inr (\<lambda>y' x'. if y \<le> y' \<and> y' < yend \<and> 0 \<le> x' \<and> x' < cols
                        then blank_cell fg bg (g y' x') else g y' x'))"
proof (induction g y yend cols fg bg rule: blank_rows.induct)
  case (1 g y yend cols fg bg)
  show ?case
  proof (cases "y < yend")
    case False
    then show ?thesis by (subst blank_rows.simps) (auto simp: fun_eq_iff)
  next
    case True
    show ?thesis
    proof (cases "0 < cols \<and> \<not> (0 \<le> y \<and> y < 200 \<and> cols \<le> 500)")
      case True
      with \<open>y < yend\<close> show ?thesis
        by (subst blank_rows.simps) (auto simp: blank_cells_eq)
    next
      case ok: False
      let ?g = "(\<lambda>y' x'. if y' = y \<and> 0 \<le> x' \<and> x' < cols
                          then blank_cell fg bg (g y' x') else g y' x')"
      have b: "blank_cells g y 0 cols fg bg = Inr ?g"
        using ok by (auto simp: blank_cells_eq)
      have step: "blank_rows g y yend cols fg bg = blank_rows ?g (y + 1) yend cols fg bg"
        using True by (subst blank_rows.simps) (simp add: b)
      have fe: "(\<lambda>y' x'. if y + 1 \<le> y' \<and> y' < yend \<and> 0 \<le> x' \<and> x' < cols
                          then blank_cell fg bg (?g y' x') else ?g y' x')
         = (\<lambda>y' x'. if y \<le> y' \<and> y' < yend \<and> 0 \<le> x' \<and> x' < cols
                          then blank_cell fg bg (g y' x') else g y' x')"
        using True by (auto simp: fun_eq_iff)
      show ?thesis
        unfolding step "1.IH"[OF True b] fe
        using True ok by auto
    qed
  qed
qed

lemma rows_up_eq:
  "rows_up g y yend cols =
    (if y < yend \<and> \<not> (0 \<le> y \<and> yend < 200 \<and> 0 \<le> cols \<and> cols \<le> 500) then Inl OutOfBounds
     else Inr (\<lambda>y' x'. if y \<le> y' \<and> y' < yend \<and> 0 \<le> x' \<and> x' < cols
                        then g (y' + 1) x' else g y' x'))"
proof (induction g y yend cols rule: rows_up.induct)
  case (1 g y yend cols)
  show ?case
  proof (cases "y < yend")
    case False
    then show ?thesis by (subst rows_up.simps) (auto simp: fun_eq_iff)
  next
    case True
    show ?thesis
    proof (cases "0 \<le> y \<and> y + 1 < 200 \<and> 0 \<le> cols \<and> cols \<le> 500")
      case False
      with True show ?thesis
        by (subst rows_up.simps) (auto simp: copy_row_def)
    next
      case ok: True
      let ?g = "g(y := (\<lambda>x. if 0 \<le> x \<and> x < cols then g (y + 1) x else g y x))"
      have c: "copy_row g y (y + 1) cols = Inr ?g"
        using ok by (simp add: copy_row_def)
      have step: "rows_up g y yend cols = rows_up ?g (y + 1) yend cols"
        using True by (subst rows_up.simps) (simp add: c)
      have fe: "(\<lambda>y' x'. if y + 1 \<le> y' \<and> y' < yend \<and> 0 \<le> x' \<and> x' < cols
                          then ?g (y' + 1) x' else ?g y' x')
         = (\<lambda>y' x'. if y \<le> y' \<and> y' < yend \<and> 0 \<le> x' \<and> x' < cols
                          then g (y' + 1) x' else g y' x')"
        using True by (auto simp: fun_eq_iff)
      show ?thesis
        unfolding step "1.IH"[OF True c] fe
        using True ok by auto
    qed
  qed
qed

lemma rows_down_eq:
  "rows_down g y ylow cols =
    (if y > ylow \<and> \<not> (0 \<le> ylow \<and> y < 200 \<and> 0 \<le> cols \<and> cols \<le> 500) then Inl OutOfBounds
     else Inr (\<lambda>y' x'. if ylow < y' \<and> y' \<le> y \<and> 0 \<le> x' \<and> x' < cols
                        then g (y' - 1) x' else g y' x'))"
proof (induction g y ylow cols rule: rows_down.induct)
  case (1 g y ylow cols)
  show ?case
  proof (cases "y > ylow")
    case False
    then show ?thesis by (subst rows_down.simps) (auto simp: fun_eq_iff)
  next
    case True
    show ?thesis
    proof (cases "0 \<le> y - 1 \<and> y < 200 \<and> 0 \<le> cols \<and> cols \<le> 500")
      case False
      with True show ?thesis
        by (subst rows_down.simps) (auto simp: copy_row_def)
    next
      case ok: True
      let ?g = "g(y := (\<lambda>x. if 0 \<le> x \<and> x < cols then g (y - 1) x else g y x))"
      have c: "copy_row g y (y - 1) cols = Inr ?g"
        using ok by (simp add: copy_row_def)
      have step: "rows_down g y ylow cols = rows_down ?g (y - 1) ylow cols"
        using True by (subst rows_down.simps) (simp add: c)
      have fe: "(\<lambda>y' x'. if ylow < y' \<and> y' \<le> y - 1 \<and> 0 \<le> x' \<and> x' < cols
                          then ?g (y' - 1) x' else ?g y' x')
         = (\<lambda>y' x'. if ylow < y' \<and> y' \<le> y \<and> 0 \<le> x' \<and> x' < cols
                          then g (y' - 1) x' else g y' x')"
        using True by (auto simp: fun_eq_iff)
      show ?thesis
        unfolding step "1.IH"[OF True c] fe
        using True ok by auto
    qed
  qed
qed

section \<open>Start-up\<close>

lemma term_init_eq:
  assumes "0 \<le> rows" "rows \<le> 200" "0 \<le> cols" "cols \<le> 500"
  shows "term_init cols rows =
    Inr ((term_zero cols rows)
           \<lparr>fg_color := 0x00FFFFFF, scroll_bottom := rows - 1,
            cursor_visible := 1, master_fd := - 1,
            cells := (\<lambda>y x. if 0 \<le> y \<and> y < rows \<and> 0 \<le> x \<and> x < cols
                             then blank0 else zero_cell)\<rparr>)"
  using assms
  by (auto simp: term_init_def Let_def blank_rows_eq term_zero_def blank0_def blank_cell_def
      zero_cell_def fun_eq_iff)

lemmas step_defs = term_process_char_def process_normal_def process_esc_def process_csi_def
  process_osc_def normal_printable_def Let_def

section \<open>The key mapper\<close>

lemma ctrl_key_eval:
  assumes "ctrl_pressed s \<noteq> 0"
  shows "kb_get_sequence s KEY_C = ([0x03], s)" "kb_get_sequence s KEY_D = ([0x04], s)"
    "kb_get_sequence s KEY_Z = ([0x1A], s)" "kb_get_sequence s KEY_L = ([0x0C], s)"
    "kb_get_sequence s KEY_A = ([0x01], s)" "kb_get_sequence s KEY_E = ([0x05], s)"
    "kb_get_sequence s KEY_K = ([0x0B], s)" "kb_get_sequence s KEY_U = ([0x15], s)"
    "kb_get_sequence s KEY_W = ([0x17], s)" "kb_get_sequence s KEY_R = ([0x12], s)"
  using assms by (simp_all add: kb_get_sequence_def)

lemma letter_byte:
  "(KEY_C, b) \<in> set letter_keys \<Longrightarrow> b = 0x03" "(KEY_D, b) \<in> set letter_keys \<Longrightarrow> b = 0x04"
  "(KEY_Z, b) \<in> set letter_keys \<Longrightarrow> b = 0x1A" "(KEY_L, b) \<in> set letter_keys \<Longrightarrow> b = 0x0C"
  "(KEY_A, b) \<in> set letter_keys \<Longrightarrow> b = 0x01" "(KEY_E, b) \<in> set letter_keys \<Longrightarrow> b = 0x05"
  "(KEY_K, b) \<in> set letter_keys \<Longrightarrow> b = 0x0B" "(KEY_U, b) \<in> set letter_keys \<Longrightarrow> b = 0x15"
  "(KEY_W, b) \<in> set letter_keys \<Longrightarrow> b = 0x17" "(KEY_R, b) \<in> set letter_keys \<Longrightarrow> b = 0x12"
  by (simp_all add: letter_keys_def)

section \<open>The scroll region stays in the grid\<close>

lemma ok_then_simps [simp]: "ok_then P (Inr t) = P t" "ok_then P (Inl e) = True"
  by (simp_all add: ok_then_def)

lemma ok_thenD: "ok_then P r \<Longrightarrow> r = Inr t \<Longrightarrow> P t"
  by simp

lemma ok_thenI: "(\<And>t. r = Inr t \<Longrightarrow> P t) \<Longrightarrow> ok_then P r"
  by (cases r) simp_all

lemma ok_then_case:
  "ok_then P (case r of Inl e \<Rightarrow> Inl e | Inr x \<Rightarrow> f x) = ok_then (\<lambda>x. ok_then P (f x)) r"
  by (cases r) simp_all

lemma ok_then_mono: "ok_then P r \<Longrightarrow> (\<And>t. P t \<Longrightarrow> Q t) \<Longrightarrow> ok_then Q r"
  by (cases r) simp_all

lemma same_frame_refl [simp]: "same_frame t t"
  by (simp add: same_frame_def)

lemma same_frame_trans: "same_frame t t' \<Longrightarrow> same_frame t' t'' \<Longrightarrow> same_frame t t''"
  by (simp add: same_frame_def)

lemma same_frame_cells [simp]: "same_frame t (t'\<lparr>cells := g\<rparr>) = same_frame t t'"
  by (simp add: same_frame_def)

lemma same_frame_with_cells [simp]: "ok_then (same_frame t) (with_cells t r)"
  by (cases r) (simp_all add: with_cells_def)

lemma same_frame_shift_up [simp]: "ok_then (same_frame t) (shift_up_blank t y)"
  by (simp add: shift_up_blank_def ok_then_def split: sum.splits)

lemma same_frame_shift_down [simp]: "ok_then (same_frame t) (shift_down_blank t y)"
  by (simp add: shift_down_blank_def ok_then_def split: sum.splits)

lemma same_frame_repeat:
  assumes "\<And>t. ok_then (same_frame t) (f t)"
  shows "ok_then (same_frame t) (repeat_op k f t)"
proof (induction k arbitrary: t)
  case 0
  then show ?case by simp
next
  case (Suc k)
  show ?case
  proof (cases "f t")
    case (Inl e)
    then show ?thesis by simp
  next
    case (Inr t1)
    with assms [of t] have a: "same_frame t t1" by simp
    from Suc [of t1] have "ok_then (same_frame t) (repeat_op k f t1)"
      by (rule ok_then_mono) (rule same_frame_trans [OF a])
    with Inr show ?thesis by simp
  qed
qed

lemma same_frame_params_loop:
  assumes "\<And>t v. same_frame t (body t v)"
  shows "ok_then (same_frame t) (params_loop body t i n)"
  using assms
proof (induction body t i n rule: params_loop.induct)
  case (1 body t i n)
  show ?case
  proof (cases "i < n \<and> 0 \<le> i \<and> i < 16")
    case True
    let ?t = "body t (escape_params t (nat i))"
    have e: "params_loop body t i n = params_loop body ?t (i + 1) n"
      using True by (subst params_loop.simps) simp
    have "ok_then (same_frame ?t) (params_loop body ?t (i + 1) n)"
      using True "1.IH" "1.prems" by simp
    moreover have "same_frame t x" if "same_frame ?t x" for x
      using "1.prems" [of t "escape_params t (nat i)"] that by (rule same_frame_trans)
    ultimately show ?thesis unfolding e
      by (rule ok_then_mono)
  next
    case False
    then show ?thesis
      by (subst params_loop.simps) auto
  qed
qed

lemma same_frame_scroll [simp]:
  "ok_then (same_frame t) (term_scroll_up t)" "ok_then (same_frame t) (term_scroll_down t)"
  by (simp_all add: term_scroll_up_def term_scroll_down_def)

lemma same_frame_newline [simp]: "ok_then (same_frame t) (term_newline t)"
proof -
  have "ok_then (same_frame t) (term_scroll_up (t\<lparr>cursor_y := scroll_bottom t\<rparr>))"
    by (rule ok_then_mono [OF same_frame_scroll(1)]) (simp add: same_frame_def)
  then show ?thesis
    by (simp add: term_newline_def Let_def same_frame_def)
qed

lemma same_frame_put_cell [simp]: "ok_then (same_frame t) (put_cell t cp)"
  by (simp add: put_cell_def Let_def same_frame_def)

lemma same_frame_putchar [simp]: "ok_then (same_frame t) (term_putchar t cp)"
proof (cases "cursor_x t \<ge> TERM_COLS t")
  case False
  then show ?thesis by (simp add: term_putchar_def)
next
  case True
  have n: "ok_then (same_frame t) (term_newline (term_carriage_return t))"
    by (rule ok_then_mono [OF same_frame_newline]) (simp add: same_frame_def term_carriage_return_def)
  show ?thesis
  proof (cases "term_newline (term_carriage_return t)")
    case (Inl e)
    with True show ?thesis by (simp add: term_putchar_def)
  next
    case (Inr t1)
    with n have a: "same_frame t t1" by simp
    have "ok_then (same_frame t) (put_cell t1 cp)"
      by (rule ok_then_mono [OF same_frame_put_cell]) (rule same_frame_trans [OF a])
    with True Inr show ?thesis by (simp add: term_putchar_def)
  qed
qed

lemma same_frame_sgr_apply: "same_frame t (sgr_apply t v)"
  by (simp add: sgr_apply_def sgr_reset_def same_frame_def)

lemma same_frame_sgr [simp]: "ok_then (same_frame t) (csi_sgr t)"
proof -
  have "ok_then (same_frame t) (params_loop sgr_apply t' 0 n)" if "same_frame t t'" for t' n
    by (rule ok_then_mono [OF same_frame_params_loop [of sgr_apply t' 0 n]])
       (simp_all add: same_frame_sgr_apply same_frame_trans [OF that])
  then show ?thesis
    by (simp add: csi_sgr_def Let_def same_frame_def sgr_reset_def)
qed

lemma same_frame_modes [simp]:
  "ok_then (same_frame t) (csi_set_mode t)" "ok_then (same_frame t) (csi_reset_mode t)"
proof -
  have s: "ok_then (same_frame t) (params_loop set_mode_apply t 0 n)" for n
    by (rule same_frame_params_loop) (simp add: set_mode_apply_def same_frame_def)
  have r: "ok_then (same_frame t) (params_loop reset_mode_apply t 0 n)" for n
    by (rule same_frame_params_loop) (simp add: reset_mode_apply_def same_frame_def)
  show "ok_then (same_frame t) (csi_set_mode t)" "ok_then (same_frame t) (csi_reset_mode t)"
    by (simp_all add: csi_set_mode_def csi_reset_mode_def s r)
qed

lemma same_frame_pure [simp]:
  "same_frame t (csi_cursor_position t)" "same_frame t (csi_cursor_up t)"
  "same_frame t (csi_cursor_down t)" "same_frame t (csi_cursor_forward t)"
  "same_frame t (csi_cursor_backward t)" "same_frame t (csi_line_absolute t)"
  "same_frame t (csi_column_absolute t)" "same_frame t (csi_device_status t)"
  "same_frame t (csi_device_attrs t)"
  by (simp_all add: same_frame_def csi_cursor_position_def csi_cursor_up_def csi_cursor_down_def
      csi_cursor_forward_def csi_cursor_backward_def csi_line_absolute_def
      csi_column_absolute_def csi_device_status_def csi_device_attrs_def master_write_def Let_def)

lemma same_frame_grid_ops [simp]:
  "ok_then (same_frame t) (csi_erase_display t)"
  "ok_then (same_frame t) (csi_erase_line t)"
  "ok_then (same_frame t) (csi_erase_chars t)"
  "ok_then (same_frame t) (csi_delete_chars t)"
  "ok_then (same_frame t) (csi_insert_chars t)"
  by (simp_all add: csi_erase_display_def csi_erase_line_def csi_erase_chars_def
      csi_delete_chars_def csi_insert_chars_def Let_def)


lemma scroll_region_dims [simp]:
  "TERM_ROWS (csi_scroll_region t) = TERM_ROWS t" "TERM_COLS (csi_scroll_region t) = TERM_COLS t"
  by (simp_all add: csi_scroll_region_def Let_def)

lemma same_frame_line_ops [simp]:
  "ok_then (same_frame t) (csi_scroll_up t)"
  "ok_then (same_frame t) (csi_scroll_down t)"
  "ok_then (same_frame t) (csi_insert_line t)"
  "ok_then (same_frame t) (csi_delete_line t)"
  unfolding csi_scroll_up_def csi_scroll_down_def csi_insert_line_def csi_delete_line_def
  by (rule same_frame_repeat, simp)+









lemmas csi_run_defs = obs_def run_def term_init_eq term_zero_def step_defs term_handle_csi_def
  param_pos_def param_count_def wrap32_def

section \<open>Scrolling, newline and putchar on well-formed terminals\<close>

lemma shift_up_blank_eq:
  assumes "0 \<le> ystart" "0 \<le> scroll_bottom t" "scroll_bottom t < 200"
    "0 \<le> TERM_COLS t" "TERM_COLS t \<le> 500"
  shows "shift_up_blank t ystart =
    Inr (t\<lparr>cells := up_grid (cells t) ystart (scroll_bottom t) (TERM_COLS t) (fg_color t) (bg_color t)\<rparr>)"
proof -
  have "(\<lambda>y' x'. if y' = scroll_bottom t \<and> 0 \<le> x' \<and> x' < TERM_COLS t
            then blank_cell (fg_color t) (bg_color t)
              (if ystart \<le> y' \<and> y' < scroll_bottom t \<and> 0 \<le> x' \<and> x' < TERM_COLS t
               then cells t (y' + 1) x' else cells t y' x')
            else if ystart \<le> y' \<and> y' < scroll_bottom t \<and> 0 \<le> x' \<and> x' < TERM_COLS t
              then cells t (y' + 1) x' else cells t y' x')
    = up_grid (cells t) ystart (scroll_bottom t) (TERM_COLS t) (fg_color t) (bg_color t)"
    by (auto simp: up_grid_def fun_eq_iff)
  with assms show ?thesis
    by (simp add: shift_up_blank_def rows_up_eq blank_cells_eq)
qed

lemma shift_down_blank_eq:
  assumes "0 \<le> ylow" "ylow < 200" "scroll_bottom t < 200"
    "0 \<le> TERM_COLS t" "TERM_COLS t \<le> 500"
  shows "shift_down_blank t ylow =
    Inr (t\<lparr>cells := down_grid (cells t) ylow (scroll_bottom t) (TERM_COLS t) (fg_color t) (bg_color t)\<rparr>)"
proof -
  have "(\<lambda>y' x'. if y' = ylow \<and> 0 \<le> x' \<and> x' < TERM_COLS t
            then blank_cell (fg_color t) (bg_color t)
              (if ylow < y' \<and> y' \<le> scroll_bottom t \<and> 0 \<le> x' \<and> x' < TERM_COLS t
               then cells t (y' - 1) x' else cells t y' x')
            else if ylow < y' \<and> y' \<le> scroll_bottom t \<and> 0 \<le> x' \<and> x' < TERM_COLS t
              then cells t (y' - 1) x' else cells t y' x')
    = down_grid (cells t) ylow (scroll_bottom t) (TERM_COLS t) (fg_color t) (bg_color t)"
    by (auto simp: down_grid_def fun_eq_iff)
  with assms show ?thesis
    by (simp add: shift_down_blank_def rows_down_eq blank_cells_eq)
qed

lemma term_scroll_up_eq:
  assumes "term_ok t"
  shows "term_scroll_up t =
    Inr (t\<lparr>cells := up_grid (cells t) (scroll_top t) (scroll_bottom t) (TERM_COLS t)
                      (fg_color t) (bg_color t)\<rparr>)"
  unfolding term_scroll_up_def
  using assms by (intro shift_up_blank_eq) (simp_all add: term_ok_def)

lemma term_scroll_down_eq:
  assumes "term_ok t"
  shows "term_scroll_down t =
    Inr (t\<lparr>cells := down_grid (cells t) (scroll_top t) (scroll_bottom t) (TERM_COLS t)
                      (fg_color t) (bg_color t)\<rparr>)"
  unfolding term_scroll_down_def
  using assms by (intro shift_down_blank_eq) (simp_all add: term_ok_def)

lemma wrap32_id [simp]: "- 2147483648 \<le> i \<Longrightarrow> i < 2147483648 \<Longrightarrow> wrap32 i = i"
  by (simp add: wrap32_def)

lemma term_newline_eq:
  assumes "term_ok t"
  shows "term_newline t =
    Inr (if cursor_y t + 1 > scroll_bottom t
         then t\<lparr>cursor_y := scroll_bottom t,
                cells := up_grid (cells t) (scroll_top t) (scroll_bottom t) (TERM_COLS t)
                      (fg_color t) (bg_color t)\<rparr>
         else t\<lparr>cursor_y := cursor_y t + 1\<rparr>)"
proof -
  from assms have w: "wrap32 (cursor_y t + 1) = cursor_y t + 1"
    by (simp add: term_ok_def)
  have ok: "term_ok (t\<lparr>cursor_y := scroll_bottom t\<rparr>)"
    using assms by (simp add: term_ok_def)
  show ?thesis
    by (simp add: term_newline_def Let_def w term_scroll_up_eq [OF ok])
qed

lemma put_cell_eq:
  assumes "term_ok t" "cursor_x t < TERM_COLS t"
  shows "put_cell t cp =
    Inr (t\<lparr>cells := (cells t)(cursor_y t := (cells t (cursor_y t))(cursor_x t := stamp t cp)),
           cursor_x := cursor_x t + 1\<rparr>)"
  using assms by (simp add: put_cell_def term_ok_def in_array_def stamp_def)

lemma term_ok_newline_cr:
  assumes "term_ok t" "term_newline (term_carriage_return t) = Inr t1"
  shows "term_ok t1 \<and> cursor_x t1 = 0 \<and> fg_color t1 = fg_color t \<and> bg_color t1 = bg_color t
     \<and> bold t1 = bold t"
proof -
  have ok: "term_ok (term_carriage_return t)"
    using assms(1) by (simp add: term_ok_def term_carriage_return_def)
  from assms(2) show ?thesis
    unfolding term_newline_eq [OF ok]
    using assms(1) by (auto simp: term_ok_def term_carriage_return_def split: if_splits)
qed

lemma term_putchar_wrap:
  assumes "term_ok t" "cursor_x t = TERM_COLS t"
  shows "\<exists>t1. term_newline (term_carriage_return t) = Inr t1
     \<and> term_putchar t cp =
        Inr (t1\<lparr>cells := (cells t1)(cursor_y t1 := (cells t1 (cursor_y t1))(0 := stamp t cp)),
               cursor_x := 1\<rparr>)"
proof -
  have ok: "term_ok (term_carriage_return t)"
    using assms(1) by (simp add: term_ok_def term_carriage_return_def)
  obtain t1 where n: "term_newline (term_carriage_return t) = Inr t1"
    unfolding term_newline_eq [OF ok] by blast
  from term_ok_newline_cr [OF assms(1) n] have p: "term_ok t1" "cursor_x t1 = 0"
    "stamp t1 cp = stamp t cp" by (simp_all add: stamp_def)
  from p(1,2) have "cursor_x t1 < TERM_COLS t1" by (simp add: term_ok_def)
  from put_cell_eq [OF p(1) this, of cp] n assms(2) p show ?thesis
    by (simp add: term_putchar_def)
qed

section \<open>The decoder on canonical UTF-8\<close>

lemma int_masks:
  "(0x3F::int) = mask 6" "(0x1F::int) = mask 5" "(0x0F::int) = mask 4" "(0x07::int) = mask 3"
  "(0xC0::int) = push_bit 6 (mask 2)"
  "(0xE0::int) = push_bit 5 (mask 3)" "(0xF0::int) = push_bit 4 (mask 4)"
  "(0xF8::int) = push_bit 3 (mask 5)"
  by (simp_all add: mask_eq_exp_minus_1 push_bit_eq_mult)

lemma bit_int_consts [simp]:
  "bit (0x80::int) n \<longleftrightarrow> n = 7"
  "bit (0x3F::int) n \<longleftrightarrow> n < 6" "bit (0x1F::int) n \<longleftrightarrow> n < 5"
  "bit (0x0F::int) n \<longleftrightarrow> n < 4" "bit (0x07::int) n \<longleftrightarrow> n < 3"
  "bit (0xC0::int) n \<longleftrightarrow> 6 \<le> n \<and> n < 8"
  "bit (0xE0::int) n \<longleftrightarrow> 5 \<le> n \<and> n < 8" "bit (0xF0::int) n \<longleftrightarrow> 4 \<le> n \<and> n < 8"
  "bit (0xF8::int) n \<longleftrightarrow> 3 \<le> n \<and> n < 8"
proof -
  have "(0x80::int) = 2 ^ 7" by simp
  then show "bit (0x80::int) n \<longleftrightarrow> n = 7" by (simp only: bit_exp_iff) auto
qed (unfold int_masks, auto simp: bit_simps)

lemma bit_lt: "(c::'a::len word) < 2 ^ k \<Longrightarrow> bit c n \<Longrightarrow> n < k"
  by (metis bit_take_bit_iff less_mask_eq take_bit_eq_mask)

lemma neq_by_bit: "bit a n \<noteq> bit b n \<Longrightarrow> a \<noteq> b"
  by auto

text \<open>Continuation bytes\<close>

lemma cont_byte:
  fixes x :: u32
  defines "b \<equiv> (0x80::byte) OR ucast (x AND 0x3F)"
  shows "is_cont b" "32 \<le> b" "ucast (b AND 0x3F) = take_bit 6 x"
proof -
  have "0x80 \<le> b" unfolding b_def by (rule le_word_or2)
  then show "32 \<le> b" by (simp add: word_le_nat_alt)
  have "b \<noteq> 0" using \<open>0x80 \<le> b\<close> by auto
  moreover have "b AND 0xC0 = 0x80"
    unfolding b_def by (rule bit_word_eqI) (auto simp: bit_simps)
  ultimately show "is_cont b" by (simp add: is_cont_def)
  show "ucast (b AND 0x3F) = take_bit 6 x"
    unfolding b_def by (rule bit_word_eqI) (auto simp: bit_simps)
qed

lemma lead2:
  fixes c :: u32
  assumes "c < 0x800"
  defines "b \<equiv> (0xC0::byte) OR ucast (drop_bit 6 c)"
  shows "32 \<le> b" "b \<noteq> 0" "b AND 0x80 \<noteq> 0" "b AND 0xE0 = 0xC0" "ucast (b AND 0x1F) = drop_bit 6 c"
proof -
  from assms(1) have "c < 2 ^ 11" by simp
  then have bc: "\<And>n. bit c n \<Longrightarrow> n < 11" by (rule bit_lt)
  have "0xC0 \<le> b" unfolding b_def by (rule le_word_or2)
  then show "32 \<le> b" "b \<noteq> 0" by (auto simp: word_le_nat_alt)
  show "b AND 0x80 \<noteq> 0"
    unfolding b_def by (rule neq_by_bit [where n = 7]) (simp add: bit_simps)
  show "b AND 0xE0 = 0xC0"
    unfolding b_def by (rule bit_word_eqI) (auto simp: bit_simps dest: bc)
  show "ucast (b AND 0x1F) = drop_bit 6 c"
    unfolding b_def by (rule bit_word_eqI) (auto simp: bit_simps dest: bc)
qed

lemma lead3:
  fixes c :: u32
  assumes "c < 0x10000"
  defines "b \<equiv> (0xE0::byte) OR ucast (drop_bit 12 c)"
  shows "32 \<le> b" "b \<noteq> 0" "b AND 0x80 \<noteq> 0" "b AND 0xE0 \<noteq> 0xC0" "b AND 0xF0 = 0xE0"
    "ucast (b AND 0x0F) = drop_bit 12 c"
proof -
  from assms(1) have "c < 2 ^ 16" by simp
  then have bc: "\<And>n. bit c n \<Longrightarrow> n < 16" by (rule bit_lt)
  have "0xE0 \<le> b" unfolding b_def by (rule le_word_or2)
  then show "32 \<le> b" "b \<noteq> 0" by (auto simp: word_le_nat_alt)
  show "b AND 0x80 \<noteq> 0"
    unfolding b_def by (rule neq_by_bit [where n = 7]) (simp add: bit_simps)
  show "b AND 0xE0 \<noteq> 0xC0"
    unfolding b_def by (rule neq_by_bit [where n = 5]) (simp add: bit_simps)
  show "b AND 0xF0 = 0xE0"
    unfolding b_def by (rule bit_word_eqI) (auto simp: bit_simps dest: bc)
  show "ucast (b AND 0x0F) = drop_bit 12 c"
    unfolding b_def by (rule bit_word_eqI) (auto simp: bit_simps dest: bc)
qed

lemma lead4:
  fixes c :: u32
  assumes "c \<le> 0x10FFFF"
  defines "b \<equiv> (0xF0::byte) OR ucast (drop_bit 18 c)"
  shows "32 \<le> b" "b \<noteq> 0" "b AND 0x80 \<noteq> 0" "b AND 0xE0 \<noteq> 0xC0" "b AND 0xF0 \<noteq> 0xE0"
    "b AND 0xF8 = 0xF0" "ucast (b AND 0x07) = drop_bit 18 c"
proof -
  from assms(1) have "c < 2 ^ 21" by (simp add: word_le_nat_alt word_less_nat_alt)
  then have bc: "\<And>n. bit c n \<Longrightarrow> n < 21" by (rule bit_lt)
  have "0xF0 \<le> b" unfolding b_def by (rule le_word_or2)
  then show "32 \<le> b" "b \<noteq> 0" by (auto simp: word_le_nat_alt)
  show "b AND 0x80 \<noteq> 0"
    unfolding b_def by (rule neq_by_bit [where n = 7]) (simp add: bit_simps)
  show "b AND 0xE0 \<noteq> 0xC0"
    unfolding b_def by (rule neq_by_bit [where n = 5]) (simp add: bit_simps)
  show "b AND 0xF0 \<noteq> 0xE0"
    unfolding b_def by (rule neq_by_bit [where n = 4]) (simp add: bit_simps)
  show "ucast (b AND 0x07) = drop_bit 18 c"
    unfolding b_def by (rule bit_word_eqI) (auto simp: bit_simps dest: bc)
  show "b AND 0xF8 = 0xF0"
    unfolding b_def by (rule bit_word_eqI) (auto simp: bit_simps dest: bc)
qed

lemma recompose:
  fixes c :: u32
  shows "push_bit 6 (drop_bit 6 c) OR take_bit 6 c = c"
    "push_bit 12 (drop_bit 12 c) OR push_bit 6 (take_bit 6 (drop_bit 6 c)) OR take_bit 6 c = c"
    "push_bit 18 (drop_bit 18 c) OR push_bit 12 (take_bit 6 (drop_bit 12 c))
       OR push_bit 6 (take_bit 6 (drop_bit 6 c)) OR take_bit 6 c = c"
proof -
  show "push_bit 6 (drop_bit 6 c) OR take_bit 6 c = c"
    by (rule bit_word_eqI) (auto simp: bit_simps)
  show "push_bit 12 (drop_bit 12 c) OR push_bit 6 (take_bit 6 (drop_bit 6 c)) OR take_bit 6 c = c"
  proof (rule bit_word_eqI)
    fix n assume "n < LENGTH(32)"
    then show "bit (push_bit 12 (drop_bit 12 c) OR push_bit 6 (take_bit 6 (drop_bit 6 c))
        OR take_bit 6 c) n = bit c n"
      by (cases "n < 6"; cases "n < 12") (auto simp: bit_simps)
  qed
  show "push_bit 18 (drop_bit 18 c) OR push_bit 12 (take_bit 6 (drop_bit 12 c))
       OR push_bit 6 (take_bit 6 (drop_bit 6 c)) OR take_bit 6 c = c"
  proof (rule bit_word_eqI)
    fix n assume "n < LENGTH(32)"
    then show "bit (push_bit 18 (drop_bit 18 c) OR push_bit 12 (take_bit 6 (drop_bit 12 c))
       OR push_bit 6 (take_bit 6 (drop_bit 6 c)) OR take_bit 6 c) n = bit c n"
      by (cases "n < 6"; cases "n < 12"; cases "n < 18") (auto simp: bit_simps)
  qed
qed

lemma and_3F: "(x::u32) AND 0x3F = take_bit 6 x"
  by (rule bit_word_eqI) (auto simp: bit_simps)

lemma utf8_encode_example: "utf8_encode 0x4E2D = [0xE4, 0xB8, 0xAD]"
  by (simp add: utf8_encode_def)

lemma process_normal_ge32: "32 \<le> ch \<Longrightarrow> process_normal t ch = normal_printable t ch"
  by (auto simp: process_normal_def)

lemma ascii_byte:
  fixes c :: u32
  assumes "0x20 \<le> c" "c < 0x80"
  defines "b \<equiv> (ucast c :: byte)"
  shows "32 \<le> b" "b \<noteq> 0" "b AND 0x80 = 0" "ucast b = c"
proof -
  from assms(2) have "c < 2 ^ 7" by simp
  then have bc: "\<And>n. bit c n \<Longrightarrow> n < 7" by (rule bit_lt)
  show u: "ucast b = c"
    unfolding b_def by (rule bit_word_eqI) (auto simp: bit_simps dest: bc)
  have "unat b = unat c"
    using assms(2) unfolding b_def
    by (simp add: unsigned_ucast_eq take_bit_eq_mod word_less_nat_alt)
  with assms(1) show "32 \<le> b" "b \<noteq> 0"
    by (auto simp: word_le_nat_alt)
  show "b AND 0x80 = 0"
    unfolding b_def by (rule bit_word_eqI) (auto simp: bit_simps dest: bc)
qed

lemma feed_enc1:
  assumes "state t = STATE_NORMAL" "utf8_buf_len t = 0" "0x20 \<le> c" "c < 0x80"
  shows "term_feed t (utf8_encode c) =
    after_put (t\<lparr>utf8_buf := (utf8_buf t)(0 := ucast c), utf8_buf_len := 1\<rparr>) c"
  using assms ascii_byte [OF assms(3,4)]
  by (simp add: utf8_encode_def term_process_char_def process_normal_ge32 normal_printable_def
      expected_len_def utf8_decode_def after_put_def split: sum.splits)

lemma feed_enc2:
  assumes "state t = STATE_NORMAL" "utf8_buf_len t = 0" "0x80 \<le> c" "c < 0x800"
  shows "term_feed t (utf8_encode c) =
    after_put (t\<lparr>utf8_buf := (utf8_buf t)(0 := 0xC0 OR ucast (drop_bit 6 c),
                                             1 := 0x80 OR ucast (c AND 0x3F)),
                  utf8_buf_len := 2\<rparr>) c"
proof -
  from assms(3) have n: "\<not> c < 0x80" by simp
  show ?thesis
    using assms(1,2,4) n lead2 [OF assms(4)] cont_byte [of c] recompose(1) [of c]
    by (simp add: utf8_encode_def term_process_char_def process_normal_ge32 normal_printable_def
      expected_len_def utf8_decode_def after_put_def Let_def or.assoc split: sum.splits)
qed

lemma feed_enc3:
  assumes "state t = STATE_NORMAL" "utf8_buf_len t = 0" "0x800 \<le> c" "c < 0x10000"
  shows "term_feed t (utf8_encode c) =
    after_put (t\<lparr>utf8_buf := (utf8_buf t)(0 := 0xE0 OR ucast (drop_bit 12 c),
                                             1 := 0x80 OR ucast (drop_bit 6 c AND 0x3F),
                                             2 := 0x80 OR ucast (c AND 0x3F)),
                  utf8_buf_len := 3\<rparr>) c"
proof -
  from assms(3) have n: "\<not> c < 0x80" "\<not> c < 0x800"
    by (simp_all add: word_le_nat_alt word_less_nat_alt)
  show ?thesis
    using assms(1,2,4) n lead3 [OF assms(4)] cont_byte [of c] cont_byte [of "drop_bit 6 c"]
      recompose(2) [of c]
    by (simp add: utf8_encode_def term_process_char_def process_normal_ge32 normal_printable_def
      expected_len_def utf8_decode_def after_put_def Let_def or.assoc split: sum.splits)
qed

lemma feed_enc4:
  assumes "state t = STATE_NORMAL" "utf8_buf_len t = 0" "0x10000 \<le> c" "c \<le> 0x10FFFF"
  shows "term_feed t (utf8_encode c) =
    after_put (t\<lparr>utf8_buf := (utf8_buf t)(0 := 0xF0 OR ucast (drop_bit 18 c),
                                             1 := 0x80 OR ucast (drop_bit 12 c AND 0x3F),
                                             2 := 0x80 OR ucast (drop_bit 6 c AND 0x3F),
                                             3 := 0x80 OR ucast (c AND 0x3F)),
                  utf8_buf_len := 4\<rparr>) c"
proof -
  from assms(3) have n: "\<not> c < 0x80" "\<not> c < 0x800" "\<not> c < 0x10000"
    by (simp_all add: word_le_nat_alt word_less_nat_alt)
  show ?thesis
    using assms(1,2) n lead4 [OF assms(4)] cont_byte [of c] cont_byte [of "drop_bit 6 c"]
      cont_byte [of "drop_bit 12 c"] recompose(3) [of c]
    by (simp add: utf8_encode_def term_process_char_def process_normal_ge32 normal_printable_def
      expected_len_def utf8_decode_def after_put_def Let_def or.assoc split: sum.splits)
qed

lemma term_ok_buf [simp]:
  "term_ok (t\<lparr>utf8_buf := B, utf8_buf_len := n\<rparr>) = term_ok t"
  by (simp add: term_ok_def)

lemma after_put_ok:
  assumes "term_ok t"
  shows "\<exists>t'. after_put (t\<lparr>utf8_buf := B, utf8_buf_len := n\<rparr>) c = Inr t'
     \<and> state t' = state t \<and> utf8_buf_len t' = 0 \<and> 0 < cursor_x t'
     \<and> cells t' (cursor_y t') (cursor_x t' - 1) = stamp t c
     \<and> (cursor_x t < TERM_COLS t \<longrightarrow> cursor_y t' = cursor_y t \<and> cursor_x t' = cursor_x t + 1)"
proof -
  let ?t = "t\<lparr>utf8_buf := B, utf8_buf_len := n\<rparr>"
  have ok: "term_ok ?t" using assms by simp
  have s: "stamp ?t c = stamp t c" by (simp add: stamp_def)
  show ?thesis
  proof (cases "cursor_x t < TERM_COLS t")
    case True
    then have "cursor_x ?t < TERM_COLS ?t" by simp
    from put_cell_eq [OF ok this, of c] True assms show ?thesis
      by (simp add: after_put_def term_putchar_def s term_ok_def)
  next
    case False
    with assms have e: "cursor_x ?t = TERM_COLS ?t" by (simp add: term_ok_def)
    from term_putchar_wrap [OF ok e, of c] obtain t1 where
      n: "term_newline (term_carriage_return ?t) = Inr t1" and
      p: "term_putchar ?t c =
        Inr (t1\<lparr>cells := (cells t1)(cursor_y t1 := (cells t1 (cursor_y t1))(0 := stamp ?t c)),
               cursor_x := 1\<rparr>)"
      by blast
    have ok': "term_ok (term_carriage_return ?t)"
      using ok by (simp add: term_ok_def term_carriage_return_def)
    from n have "state t1 = state t"
      unfolding term_newline_eq [OF ok']
      by (auto simp: term_carriage_return_def split: if_splits)
    with p False show ?thesis
      by (simp add: after_put_def s)
  qed
qed

lemma run_empty:
  "run 80 24 3 [] = Inr ((term_zero 80 24)
           \<lparr>fg_color := 0x00FFFFFF, scroll_bottom := 23,
            cursor_visible := 1, master_fd := 3,
            cells := (\<lambda>y x. if 0 \<le> y \<and> y < 24 \<and> 0 \<le> x \<and> x < 80
                             then blank0 else zero_cell)\<rparr>)"
  by (simp add: run_def term_init_eq)

lemma ascii_mask: "(a::byte) \<le> 0x7E \<Longrightarrow> a AND 0x80 = 0"
proof -
  assume "a \<le> 0x7E"
  then have "a < 2 ^ 7" by (simp add: word_le_nat_alt word_less_nat_alt)
  then have b: "\<And>n. bit a n \<Longrightarrow> n < 7" by (rule bit_lt)
  show ?thesis
    by (rule bit_word_eqI) (auto simp: bit_simps dest: b)
qed

lemma process_ascii:
  assumes "state t = STATE_NORMAL" "utf8_buf_len t = 0" "0x20 \<le> a" "a \<le> 0x7E"
  shows "term_process_char t a =
    after_put (t\<lparr>utf8_buf := (utf8_buf t)(0 := a), utf8_buf_len := 1\<rparr>) (ucast a)"
proof -
  from assms(3) have "a \<noteq> 0" by auto
  with assms ascii_mask [OF assms(4)] show ?thesis
    by (simp add: term_process_char_def process_normal_ge32 normal_printable_def
        expected_len_def utf8_decode_def after_put_def)
qed

section \<open>Control sequences with decimal parameters\<close>

lemma term_feed_append:
  "term_feed t (xs @ ys) = (case term_feed t xs of Inl e \<Rightarrow> Inl e | Inr t' \<Rightarrow> term_feed t' ys)"
  by (induction xs arbitrary: t) (auto split: sum.splits)

lemma digit_byte:
  assumes "d < 10"
  shows "(0x30::byte) \<le> of_nat (48 + d)" "(of_nat (48 + d)::byte) \<le> 0x39"
    "uint (of_nat (48 + d) :: byte) = 48 + int d"
proof -
  from assms have "d = 0 \<or> d = 1 \<or> d = 2 \<or> d = 3 \<or> d = 4 \<or> d = 5 \<or> d = 6 \<or> d = 7
      \<or> d = 8 \<or> d = 9" by arith
  then show "(0x30::byte) \<le> of_nat (48 + d)" "(of_nat (48 + d)::byte) \<le> 0x39"
    "uint (of_nat (48 + d) :: byte) = 48 + int d"
    by auto
qed

lemma process_csi_digit:
  assumes "state t = STATE_CSI" "0 \<le> num_escape_params t" "num_escape_params t \<le> 16" "d < 10"
  shows "term_process_char t (of_nat (48 + d)) =
    Inr (t\<lparr>num_escape_params := max 1 (num_escape_params t),
           escape_params := (escape_params t)
             (slot t := wrap32 (wrap32 (escape_params t (slot t) * 10) + int d))\<rparr>)"
  using assms digit_byte [OF assms(4)]
  by (auto simp: term_process_char_def process_csi_def Let_def slot_def max_def)

lemma feed_dec:
  assumes "state t = STATE_CSI" "0 \<le> num_escape_params t" "num_escape_params t \<le> 16"
    "escape_params t (slot t) = 0" "n < 2147483648"
  shows "term_feed t (dec n) =
    Inr (t\<lparr>num_escape_params := max 1 (num_escape_params t),
           escape_params := (escape_params t)(slot t := int n)\<rparr>)"
  using assms
proof (induction n rule: dec.induct)
  case (1 n)
  show ?case
  proof (cases "n < 10")
    case True
    then have d: "dec n = [of_nat (48 + n)]" by (subst dec.simps) simp
    have w: "wrap32 (wrap32 (escape_params t (slot t) * 10) + int n) = int n"
      using "1.prems"(4) True by (simp add: wrap32_def)
    show ?thesis
      unfolding d using process_csi_digit [OF "1.prems"(1-3) True]
      by (simp only: term_feed.simps w sum.case)
  next
    case False
    then have d: "dec n = dec (n div 10) @ [of_nat (48 + n mod 10)]"
      by (subst dec.simps) simp
    let ?t1 = "t\<lparr>num_escape_params := max 1 (num_escape_params t),
           escape_params := (escape_params t)(slot t := int (n div 10))\<rparr>"
    from "1.prems"(5) have "n div 10 < 2147483648" by simp
    from "1.IH" [OF False "1.prems"(1-4) this]
    have f: "term_feed t (dec (n div 10)) = Inr ?t1" .
    have s: "slot ?t1 = slot t" by (simp add: slot_def)
    have m: "n mod 10 < 10" by simp
    have h: "state ?t1 = STATE_CSI" "0 \<le> num_escape_params ?t1" "num_escape_params ?t1 \<le> 16"
      using "1.prems"(1-3) by simp_all
    have v: "wrap32 (wrap32 (int (n div 10) * 10) + int (n mod 10)) = int n"
    proof -
      have "n div 10 * 10 + n mod 10 = n" by simp
      then have a: "int (n div 10) * 10 + int (n mod 10) = int n"
        by (metis of_nat_add of_nat_mult of_nat_numeral)
      have b: "0 \<le> int (n div 10) * 10" "int (n div 10) * 10 \<le> int n"
        using a by linarith+
      have "wrap32 (int (n div 10) * 10) = int (n div 10) * 10"
        using b "1.prems"(5) by (simp add: wrap32_def)
      then show ?thesis using a "1.prems"(5) by (simp add: wrap32_def)
    qed
    have e: "escape_params ?t1 (slot ?t1) = int (n div 10)" by (simp add: s)
    have u: "?t1\<lparr>num_escape_params := max 1 (num_escape_params ?t1),
           escape_params := (escape_params ?t1)(slot ?t1 := int n)\<rparr>
        = t\<lparr>num_escape_params := max 1 (num_escape_params t),
           escape_params := (escape_params t)(slot t := int n)\<rparr>"
      by (simp add: s)
    show ?thesis
      unfolding d term_feed_append f sum.case
      using process_csi_digit [OF h m]
      by (simp only: term_feed.simps e v u sum.case)
  qed
qed

lemma csi_enter:
  "state t = STATE_NORMAL \<Longrightarrow> term_feed t (0x1B # 0x5B # bs) = term_feed (csi_start t) bs"
  by (cases t) (simp add: term_process_char_def process_normal_def process_esc_def csi_start_def)

lemma csi_final:
  assumes "state t = STATE_CSI" "0x40 \<le> f" "f \<le> 0x7E"
  shows "term_process_char t f =
    (case term_handle_csi t f of
       Inl e \<Rightarrow> Inl e
     | Inr t' \<Rightarrow> Inr (t'\<lparr>state := STATE_NORMAL, private_mode := 0\<rparr>))"
proof -
  from assms(2) have "\<not> f \<le> 0x39" "f \<noteq> 0x3B" "f \<noteq> 0x3F"
    by (auto simp: word_le_nat_alt)
  with assms show ?thesis
    by (simp add: term_process_char_def process_csi_def)
qed

lemma csi_semicolon:
  assumes "state t = STATE_CSI" "num_escape_params t < 16"
  shows "term_process_char t 0x3B = Inr (t\<lparr>num_escape_params := num_escape_params t + 1\<rparr>)"
  using assms by (simp add: term_process_char_def process_csi_def)

text \<open>ESC \<^verbatim>\<open>[\<close>, one decimal parameter, a final byte\<close>

lemma csi_one_param:
  assumes "state t = STATE_NORMAL" "n < 2147483648" "0x40 \<le> f" "f \<le> 0x7E"
  shows "term_feed t ([0x1B, 0x5B] @ dec n @ [f]) =
    (case term_handle_csi ((csi_start t)\<lparr>num_escape_params := 1,
                              escape_params := (\<lambda>i. 0)(0 := int n)\<rparr>) f of
       Inl e \<Rightarrow> Inl e
     | Inr t' \<Rightarrow> Inr (t'\<lparr>state := STATE_NORMAL, private_mode := 0\<rparr>))"
proof -
  let ?t1 = "csi_start t"
  have h: "state ?t1 = STATE_CSI" "0 \<le> num_escape_params ?t1" "num_escape_params ?t1 \<le> 16"
    "escape_params ?t1 (slot ?t1) = 0"
    by (simp_all add: csi_start_def)
  let ?t2 = "?t1\<lparr>num_escape_params := 1, escape_params := (\<lambda>i. 0)(0 := int n)\<rparr>"
  from feed_dec [OF h assms(2)] have d: "term_feed ?t1 (dec n) = Inr ?t2"
    by (simp add: csi_start_def slot_def)
  have s: "state ?t2 = STATE_CSI" by (simp add: csi_start_def)
  have "term_feed t ([0x1B, 0x5B] @ dec n @ [f]) = term_feed ?t1 (dec n @ [f])"
    using csi_enter [OF assms(1)] by simp
  also have "\<dots> = term_feed ?t2 [f]"
    by (simp add: term_feed_append d)
  also have "\<dots> = (case term_handle_csi ?t2 f of
       Inl e \<Rightarrow> Inl e
     | Inr t' \<Rightarrow> Inr (t'\<lparr>state := STATE_NORMAL, private_mode := 0\<rparr>))"
    unfolding term_feed.simps csi_final [OF s assms(3,4)] by (simp split: sum.splits)
  finally show ?thesis .
qed

text \<open>ESC \<^verbatim>\<open>[\<close>, two decimal parameters separated by a semicolon, a final byte\<close>

lemma csi_two_params:
  assumes "state t = STATE_NORMAL" "n < 2147483648" "m < 2147483648" "0x40 \<le> f" "f \<le> 0x7E"
  shows "term_feed t ([0x1B, 0x5B] @ dec n @ [0x3B] @ dec m @ [f]) =
    (case term_handle_csi ((csi_start t)\<lparr>num_escape_params := 2,
                              escape_params := (\<lambda>i. 0)(0 := int n, 1 := int m)\<rparr>) f of
       Inl e \<Rightarrow> Inl e
     | Inr t' \<Rightarrow> Inr (t'\<lparr>state := STATE_NORMAL, private_mode := 0\<rparr>))"
proof -
  let ?t1 = "csi_start t"
  have h: "state ?t1 = STATE_CSI" "0 \<le> num_escape_params ?t1" "num_escape_params ?t1 \<le> 16"
    "escape_params ?t1 (slot ?t1) = 0"
    by (simp_all add: csi_start_def)
  let ?t2 = "?t1\<lparr>num_escape_params := 1, escape_params := (\<lambda>i. 0)(0 := int n)\<rparr>"
  from feed_dec [OF h assms(2)] have d: "term_feed ?t1 (dec n) = Inr ?t2"
    by (simp add: csi_start_def slot_def)
  let ?t3 = "?t1\<lparr>num_escape_params := 2, escape_params := (\<lambda>i. 0)(0 := int n)\<rparr>"
  have sc: "term_process_char ?t2 0x3B = Inr ?t3"
    using csi_semicolon [of ?t2] by (simp add: csi_start_def)
  have h3: "state ?t3 = STATE_CSI" "0 \<le> num_escape_params ?t3" "num_escape_params ?t3 \<le> 16"
    "escape_params ?t3 (slot ?t3) = 0"
    by (simp_all add: csi_start_def slot_def)
  let ?t4 = "?t1\<lparr>num_escape_params := 2, escape_params := (\<lambda>i. 0)(0 := int n, 1 := int m)\<rparr>"
  from feed_dec [OF h3 assms(3)] have d2: "term_feed ?t3 (dec m) = Inr ?t4"
    by (simp add: csi_start_def slot_def)
  have s: "state ?t4 = STATE_CSI" by (simp add: csi_start_def)
  have "term_feed t ([0x1B, 0x5B] @ dec n @ [0x3B] @ dec m @ [f])
      = term_feed ?t1 (dec n @ 0x3B # dec m @ [f])"
    using csi_enter [OF assms(1)] by simp
  also have "\<dots> = term_feed ?t3 (dec m @ [f])"
    by (simp add: term_feed_append d sc)
  also have "\<dots> = term_feed ?t4 [f]"
    by (simp add: term_feed_append d2)
  also have "\<dots> = (case term_handle_csi ?t4 f of
       Inl e \<Rightarrow> Inl e
     | Inr t' \<Rightarrow> Inr (t'\<lparr>state := STATE_NORMAL, private_mode := 0\<rparr>))"
    unfolding term_feed.simps csi_final [OF s assms(4,5)] by (simp split: sum.splits)
  finally show ?thesis .
qed

lemma dec_digit: "n < 10 \<Longrightarrow> dec n = [of_nat (48 + n)]"
  by (subst dec.simps) simp

lemma fmt_d_nat [simp]: "fmt_d (int n) = dec n"
  by (simp add: fmt_d_def)

section \<open>Repeated scrolls\<close>

lemma up_n_step:
  assumes "ytop \<le> bottom"
  shows "up_n (up_grid g ytop bottom cols fg bg) ytop bottom cols fg bg k
       = up_n g ytop bottom cols fg bg (Suc k)"
  using assms by (auto simp: up_n_def up_grid_def fun_eq_iff algebra_simps)

lemma down_n_step:
  assumes "ytop \<le> bottom"
  shows "down_n (down_grid g ytop bottom cols fg bg) ytop bottom cols fg bg k
       = down_n g ytop bottom cols fg bg (Suc k)"
  using assms by (auto simp: down_n_def down_grid_def fun_eq_iff algebra_simps)

lemma up_n_0: "ytop \<le> bottom \<Longrightarrow> up_n g ytop bottom cols fg bg 0 = g"
  by (auto simp: up_n_def fun_eq_iff)

lemma down_n_0: "ytop \<le> bottom \<Longrightarrow> down_n g ytop bottom cols fg bg 0 = g"
  by (auto simp: down_n_def fun_eq_iff)

lemma term_ok_cells [simp]: "term_ok (t\<lparr>cells := g\<rparr>) = term_ok t"
  by (simp add: term_ok_def)

lemma repeat_scroll_up:
  assumes "term_ok t" "scroll_top t \<le> scroll_bottom t"
  shows "repeat_op k term_scroll_up t =
    Inr (t\<lparr>cells := up_n (cells t) (scroll_top t) (scroll_bottom t) (TERM_COLS t)
                      (fg_color t) (bg_color t) k\<rparr>)"
  using assms
proof (induction k arbitrary: t)
  case 0
  then show ?case by (simp add: up_n_0)
next
  case (Suc k)
  let ?t1 = "t\<lparr>cells := up_grid (cells t) (scroll_top t) (scroll_bottom t) (TERM_COLS t)
                      (fg_color t) (bg_color t)\<rparr>"
  have ok: "term_ok ?t1" "scroll_top ?t1 \<le> scroll_bottom ?t1"
    using Suc.prems by simp_all
  show ?case
    using Suc.IH [OF ok] Suc.prems(2)
    by (simp add: term_scroll_up_eq [OF Suc.prems(1)] up_n_step)
qed

lemma repeat_scroll_down:
  assumes "term_ok t" "scroll_top t \<le> scroll_bottom t"
  shows "repeat_op k term_scroll_down t =
    Inr (t\<lparr>cells := down_n (cells t) (scroll_top t) (scroll_bottom t) (TERM_COLS t)
                      (fg_color t) (bg_color t) k\<rparr>)"
  using assms
proof (induction k arbitrary: t)
  case 0
  then show ?case by (simp add: down_n_0)
next
  case (Suc k)
  let ?t1 = "t\<lparr>cells := down_grid (cells t) (scroll_top t) (scroll_bottom t) (TERM_COLS t)
                      (fg_color t) (bg_color t)\<rparr>"
  have ok: "term_ok ?t1" "scroll_top ?t1 \<le> scroll_bottom ?t1"
    using Suc.prems by simp_all
  show ?case
    using Suc.IH [OF ok] Suc.prems(2)
    by (simp add: term_scroll_down_eq [OF Suc.prems(1)] down_n_step)
qed

text \<open>ESC \<^verbatim>\<open>[ k S\<close> and ESC \<^verbatim>\<open>[ k T\<close> on a well-formed terminal\<close>

lemma term_ok_csi [simp]:
  "term_ok ((csi_start t)\<lparr>num_escape_params := n, escape_params := p\<rparr>) = term_ok t"
  by (simp add: term_ok_def csi_start_def)

lemma feed_scroll_up:
  assumes "term_ok t" "state t = STATE_NORMAL" "scroll_top t \<le> scroll_bottom t"
    "1 \<le> k" "k < 2147483648"
  shows "term_feed t ([0x1B, 0x5B] @ dec k @ [0x53]) =
    Inr ((csi_start t)\<lparr>num_escape_params := 1, escape_params := (\<lambda>i. 0)(0 := int k),
           cells := up_n (cells t) (scroll_top t) (scroll_bottom t) (TERM_COLS t)
                      (fg_color t) (bg_color t) k,
           state := STATE_NORMAL, private_mode := 0\<rparr>)"
proof -
  let ?p = "(csi_start t)\<lparr>num_escape_params := 1, escape_params := (\<lambda>i. 0)(0 := int k)\<rparr>"
  have ok: "term_ok ?p" "scroll_top ?p \<le> scroll_bottom ?p"
    using assms(1,3) by (simp_all add: term_ok_def csi_start_def)
  have c: "nat (param_count ?p) = k" using assms(4) by (simp add: param_count_def)
  have A: "term_feed t ([0x1B, 0x5B] @ dec k @ [0x53]) =
    (case term_handle_csi ?p 0x53 of
       Inl e \<Rightarrow> Inl e
     | Inr t' \<Rightarrow> Inr (t'\<lparr>state := STATE_NORMAL, private_mode := 0\<rparr>))"
    by (rule csi_one_param [OF assms(2,5)]) simp_all
  have B: "term_handle_csi ?p 0x53 = repeat_op k term_scroll_up ?p"
    by (simp add: term_handle_csi_def csi_scroll_up_def c)
  show ?thesis
    unfolding A B repeat_scroll_up [OF ok] by (simp add: csi_start_def)
qed

lemma feed_scroll_down:
  assumes "term_ok t" "state t = STATE_NORMAL" "scroll_top t \<le> scroll_bottom t"
    "1 \<le> k" "k < 2147483648"
  shows "term_feed t ([0x1B, 0x5B] @ dec k @ [0x54]) =
    Inr ((csi_start t)\<lparr>num_escape_params := 1, escape_params := (\<lambda>i. 0)(0 := int k),
           cells := down_n (cells t) (scroll_top t) (scroll_bottom t) (TERM_COLS t)
                      (fg_color t) (bg_color t) k,
           state := STATE_NORMAL, private_mode := 0\<rparr>)"
proof -
  let ?p = "(csi_start t)\<lparr>num_escape_params := 1, escape_params := (\<lambda>i. 0)(0 := int k)\<rparr>"
  have ok: "term_ok ?p" "scroll_top ?p \<le> scroll_bottom ?p"
    using assms(1,3) by (simp_all add: term_ok_def csi_start_def)
  have c: "nat (param_count ?p) = k" using assms(4) by (simp add: param_count_def)
  have A: "term_feed t ([0x1B, 0x5B] @ dec k @ [0x54]) =
    (case term_handle_csi ?p 0x54 of
       Inl e \<Rightarrow> Inl e
     | Inr t' \<Rightarrow> Inr (t'\<lparr>state := STATE_NORMAL, private_mode := 0\<rparr>))"
    by (rule csi_one_param [OF assms(2,5)]) simp_all
  have B: "term_handle_csi ?p 0x54 = repeat_op k term_scroll_down ?p"
    by (simp add: term_handle_csi_def csi_scroll_down_def c)
  show ?thesis
    unfolding A B repeat_scroll_down [OF ok] by (simp add: csi_start_def)
qed

lemmas run_eval = csi_run_defs csi_cursor_position_def csi_sgr_def sgr_apply_def sgr_reset_def
  params_loop.simps csi_scroll_up_def csi_scroll_down_def term_scroll_up_def term_scroll_down_def
  shift_up_blank_def shift_down_blank_def rows_up_eq rows_down_eq blank_cells_eq
  term_putchar_def put_cell_def in_array_def expected_len_def utf8_decode_def
  cell_at_def blank0_def zero_cell_def blank_cell_def

lemma scroll_pair_1: "scroll_pair 1 = [0x1B, 0x5B, 0x31, 0x53, 0x1B, 0x5B, 0x31, 0x54]"
  by (simp add: scroll_pair_def dec.simps)

section \<open>Stored code points have at most 21 bits\<close>

lemma lt_by_bits:
  fixes w :: u32
  assumes "\<And>n. bit w n \<Longrightarrow> n < 21"
  shows "w < 0x200000"
proof -
  have "take_bit 21 w = w"
    by (rule bit_word_eqI) (auto simp: bit_simps dest: assms)
  moreover have "w AND mask 21 < 2 ^ 21"
    by (rule and_mask_less_size) (simp add: word_size)
  ultimately have "w < 2 ^ 21"
    by (simp add: take_bit_eq_mask)
  then show ?thesis by simp
qed

lemma utf8_decode_bits: "bit (utf8_decode b) n \<Longrightarrow> n < 21"
proof -
  have f: "bit (0xFFFD::int) n \<Longrightarrow> n < 21" for n
  proof -
    assume a: "bit (0xFFFD::int) n"
    have "take_bit 16 (0xFFFD::int) = 0xFFFD" by simp
    with a have "bit (take_bit 16 (0xFFFD::int)) n" by simp
    then show "n < 21" by (simp only: bit_take_bit_iff) simp
  qed
  assume "bit (utf8_decode b) n"
  then show ?thesis
    by (auto simp: utf8_decode_def Let_def bit_simps split: if_splits dest: f bit_imp_le_length)
qed

lemma utf8_decode_bound: "utf8_decode b < 0x200000"
  by (rule lt_by_bits) (rule utf8_decode_bits)

lemma ok_then_bind:
  assumes "ok_then Q r" "\<And>g. Q g \<Longrightarrow> ok_then P (f g)"
  shows "ok_then P (case r of Inl e \<Rightarrow> Inl e | Inr g \<Rightarrow> f g)"
  using assms by (cases r) simp_all

lemma gb_blank_cells:
  "grid_bounded g \<Longrightarrow> ok_then grid_bounded (blank_cells g y x xend fg bg)"
  by (simp add: blank_cells_eq grid_bounded_def blank_cell_def)

lemma gb_blank_rows:
  "grid_bounded g \<Longrightarrow> ok_then grid_bounded (blank_rows g y yend cols fg bg)"
  by (simp add: blank_rows_eq grid_bounded_def blank_cell_def)

lemma gb_rows_up: "grid_bounded g \<Longrightarrow> ok_then grid_bounded (rows_up g y yend cols)"
  by (simp add: rows_up_eq grid_bounded_def)

lemma gb_rows_down: "grid_bounded g \<Longrightarrow> ok_then grid_bounded (rows_down g y ylow cols)"
  by (simp add: rows_down_eq grid_bounded_def)

lemma gb_shift_left:
  "grid_bounded g \<Longrightarrow> ok_then grid_bounded (shift_left_cells g y x xend count)"
proof (induction g y x xend count rule: shift_left_cells.induct)
  case (1 g y x xend count)
  show ?case
  proof (cases "x < xend \<and> in_array y x \<and> in_array y (x + count)")
    case True
    let ?g = "g(y := (g y)(x := g y (x + count)))"
    have gb: "grid_bounded ?g" using "1.prems" by (simp add: grid_bounded_def)
    have "ok_then grid_bounded (shift_left_cells ?g y (x + 1) xend count)"
      by (rule "1.IH" [OF _ _ gb]) (use True in simp_all)
    with True show ?thesis by (subst shift_left_cells.simps) simp
  next
    case False
    with "1.prems" show ?thesis by (subst shift_left_cells.simps) auto
  qed
qed

lemma gb_shift_right:
  "grid_bounded g \<Longrightarrow> ok_then grid_bounded (shift_right_cells g y x xlow count)"
proof (induction g y x xlow count rule: shift_right_cells.induct)
  case (1 g y x xlow count)
  show ?case
  proof (cases "x \<ge> xlow \<and> in_array y x \<and> in_array y (x - count)")
    case True
    let ?g = "g(y := (g y)(x := g y (x - count)))"
    have gb: "grid_bounded ?g" using "1.prems" by (simp add: grid_bounded_def)
    have "ok_then grid_bounded (shift_right_cells ?g y (x - 1) xlow count)"
      by (rule "1.IH" [OF _ _ gb]) (use True in simp_all)
    with True show ?thesis by (subst shift_right_cells.simps) simp
  next
    case False
    with "1.prems" show ?thesis by (subst shift_right_cells.simps) auto
  qed
qed

lemma cp_inv_with_cells:
  "ok_then grid_bounded r \<Longrightarrow> ok_then cp_inv (with_cells t r)"
  by (cases r) (simp_all add: with_cells_def cp_inv_def)

lemma cp_inv_shift_up: "cp_inv t \<Longrightarrow> ok_then cp_inv (shift_up_blank t y)"
  unfolding shift_up_blank_def cp_inv_def
  by (rule ok_then_bind [OF gb_rows_up], assumption, rule ok_then_bind [OF gb_blank_cells])
     simp_all

lemma cp_inv_shift_down: "cp_inv t \<Longrightarrow> ok_then cp_inv (shift_down_blank t y)"
  unfolding shift_down_blank_def cp_inv_def
  by (rule ok_then_bind [OF gb_rows_down], assumption, rule ok_then_bind [OF gb_blank_cells])
     simp_all

lemma cp_inv_repeat:
  assumes "\<And>t. cp_inv t \<Longrightarrow> ok_then cp_inv (f t)"
  shows "cp_inv t \<Longrightarrow> ok_then cp_inv (repeat_op k f t)"
proof (induction k arbitrary: t)
  case 0
  then show ?case by simp
next
  case (Suc k)
  show ?case
    unfolding repeat_op.simps
    by (rule ok_then_bind [OF assms [OF Suc.prems]]) (rule Suc.IH)
qed

lemma cp_inv_params_loop:
  assumes "\<And>t v. cells (body t v) = cells t"
  shows "cp_inv t \<Longrightarrow> ok_then cp_inv (params_loop body t i n)"
  using assms
proof (induction body t i n rule: params_loop.induct)
  case (1 body t i n)
  show ?case
  proof (cases "i < n \<and> 0 \<le> i \<and> i < 16")
    case True
    let ?t = "body t (escape_params t (nat i))"
    have ci: "cp_inv ?t" using "1.prems" by (simp add: cp_inv_def)
    have "ok_then cp_inv (params_loop body ?t (i + 1) n)"
      by (rule "1.IH" [OF _ _ ci "1.prems"(2)]) (use True in simp_all)
    with True show ?thesis by (subst params_loop.simps) simp
  next
    case False
    with "1.prems"(1) show ?thesis by (subst params_loop.simps) auto
  qed
qed

lemma cp_inv_scroll:
  "cp_inv t \<Longrightarrow> ok_then cp_inv (term_scroll_up t)"
  "cp_inv t \<Longrightarrow> ok_then cp_inv (term_scroll_down t)"
  by (simp_all add: term_scroll_up_def term_scroll_down_def cp_inv_shift_up cp_inv_shift_down)

lemma cp_inv_newline: "cp_inv t \<Longrightarrow> ok_then cp_inv (term_newline t)"
proof -
  assume a: "cp_inv t"
  have "ok_then cp_inv (term_scroll_up (t\<lparr>cursor_y := v, cursor_y := w\<rparr>))" for v w
    by (rule cp_inv_scroll) (use a in \<open>simp add: cp_inv_def\<close>)
  with a show ?thesis
    by (simp add: term_newline_def Let_def cp_inv_def)
qed

lemma cp_inv_put_cell:
  "cp_inv t \<Longrightarrow> cp < 0x200000 \<Longrightarrow> ok_then cp_inv (put_cell t cp)"
  by (simp add: put_cell_def Let_def cp_inv_def grid_bounded_def)

lemma cp_inv_putchar:
  assumes "cp_inv t" "cp < 0x200000"
  shows "ok_then cp_inv (term_putchar t cp)"
proof -
  have "cp_inv (term_carriage_return t)"
    using assms(1) by (simp add: cp_inv_def term_carriage_return_def)
  then have "ok_then cp_inv (term_newline (term_carriage_return t))"
    by (rule cp_inv_newline)
  then have "ok_then cp_inv (case term_newline (term_carriage_return t) of
       Inl e \<Rightarrow> Inl e | Inr t' \<Rightarrow> put_cell t' cp)"
    by (rule ok_then_bind) (rule cp_inv_put_cell [OF _ assms(2)])
  with cp_inv_put_cell [OF assms] show ?thesis
    by (simp add: term_putchar_def)
qed

lemma cp_inv_pure:
  "cp_inv (csi_cursor_position t) = cp_inv t" "cp_inv (csi_cursor_up t) = cp_inv t"
  "cp_inv (csi_cursor_down t) = cp_inv t" "cp_inv (csi_cursor_forward t) = cp_inv t"
  "cp_inv (csi_cursor_backward t) = cp_inv t" "cp_inv (csi_line_absolute t) = cp_inv t"
  "cp_inv (csi_column_absolute t) = cp_inv t" "cp_inv (csi_device_status t) = cp_inv t"
  "cp_inv (csi_device_attrs t) = cp_inv t" "cp_inv (csi_scroll_region t) = cp_inv t"
  by (simp_all add: cp_inv_def csi_cursor_position_def csi_cursor_up_def csi_cursor_down_def
      csi_cursor_forward_def csi_cursor_backward_def csi_line_absolute_def
      csi_column_absolute_def csi_device_status_def csi_device_attrs_def master_write_def
      csi_scroll_region_def Let_def)

lemma cp_inv_erase_display: "cp_inv t \<Longrightarrow> ok_then cp_inv (csi_erase_display t)"
proof -
  assume a: "cp_inv t"
  then have g: "grid_bounded (cells t)" by (simp add: cp_inv_def)
  have 1: "ok_then grid_bounded
     (case blank_cells (cells t) (cursor_y t) (cursor_x t) (TERM_COLS t) (fg_color t) (bg_color t) of
        Inl e \<Rightarrow> Inl e
      | Inr g \<Rightarrow> blank_rows g (cursor_y t + 1) (TERM_ROWS t) (TERM_COLS t) (fg_color t) (bg_color t))"
    by (rule ok_then_bind [OF gb_blank_cells [OF g]]) (rule gb_blank_rows)
  have 2: "ok_then grid_bounded
     (case blank_rows (cells t) 0 (cursor_y t) (TERM_COLS t) (fg_color t) (bg_color t) of
        Inl e \<Rightarrow> Inl e
      | Inr g \<Rightarrow> blank_cells g (cursor_y t) 0 (cursor_x t + 1) (fg_color t) (bg_color t))"
    by (rule ok_then_bind [OF gb_blank_rows [OF g]]) (rule gb_blank_cells)
  from a 1 2 show ?thesis
    by (simp add: csi_erase_display_def Let_def cp_inv_with_cells gb_blank_rows [OF g])
qed

lemma cp_inv_erase_line: "cp_inv t \<Longrightarrow> ok_then cp_inv (csi_erase_line t)"
proof -
  assume a: "cp_inv t"
  then have g: "grid_bounded (cells t)" by (simp add: cp_inv_def)
  from a show ?thesis
    by (simp add: csi_erase_line_def Let_def cp_inv_with_cells gb_blank_cells [OF g])
qed

lemma cp_inv_erase_chars: "cp_inv t \<Longrightarrow> ok_then cp_inv (csi_erase_chars t)"
proof -
  assume a: "cp_inv t"
  then have g: "grid_bounded (cells t)" by (simp add: cp_inv_def)
  show ?thesis
    by (simp add: csi_erase_chars_def Let_def cp_inv_with_cells gb_blank_cells [OF g])
qed

lemma cp_inv_delete_chars: "cp_inv t \<Longrightarrow> ok_then cp_inv (csi_delete_chars t)"
proof -
  assume a: "cp_inv t"
  then have g: "grid_bounded (cells t)" by (simp add: cp_inv_def)
  show ?thesis
    unfolding csi_delete_chars_def Let_def
    by (rule cp_inv_with_cells, rule ok_then_bind [OF gb_shift_left [OF g]], rule gb_blank_cells)
qed

lemma cp_inv_insert_chars: "cp_inv t \<Longrightarrow> ok_then cp_inv (csi_insert_chars t)"
proof -
  assume a: "cp_inv t"
  then have g: "grid_bounded (cells t)" by (simp add: cp_inv_def)
  show ?thesis
    unfolding csi_insert_chars_def Let_def
    by (rule cp_inv_with_cells, rule ok_then_bind [OF gb_shift_right [OF g]], rule gb_blank_cells)
qed

lemma cp_inv_line_ops:
  assumes "cp_inv t"
  shows "ok_then cp_inv (csi_scroll_up t)" "ok_then cp_inv (csi_scroll_down t)"
    "ok_then cp_inv (csi_insert_line t)" "ok_then cp_inv (csi_delete_line t)"
  unfolding csi_scroll_up_def csi_scroll_down_def csi_insert_line_def csi_delete_line_def
  by (rule cp_inv_repeat [OF _ assms],
      (erule cp_inv_scroll | erule cp_inv_shift_up | erule cp_inv_shift_down))+

lemma cp_inv_sgr: "cp_inv t \<Longrightarrow> ok_then cp_inv (csi_sgr t)"
proof -
  assume a: "cp_inv t"
  have b: "cells (sgr_apply t v) = cells t" for t v
    by (simp add: sgr_apply_def sgr_reset_def)
  have "cp_inv (sgr_reset t)" using a by (simp add: cp_inv_def sgr_reset_def)
  with a show ?thesis
    by (simp add: csi_sgr_def Let_def cp_inv_params_loop [OF b])
qed

lemma cp_inv_modes:
  assumes "cp_inv t"
  shows "ok_then cp_inv (csi_set_mode t)" "ok_then cp_inv (csi_reset_mode t)"
proof -
  have s: "cells (set_mode_apply t v) = cells t" for t v by (simp add: set_mode_apply_def)
  have r: "cells (reset_mode_apply t v) = cells t" for t v by (simp add: reset_mode_apply_def)
  from assms show "ok_then cp_inv (csi_set_mode t)" "ok_then cp_inv (csi_reset_mode t)"
    by (simp_all add: csi_set_mode_def csi_reset_mode_def cp_inv_params_loop [OF s]
        cp_inv_params_loop [OF r])
qed

lemma cp_inv_handle_csi: "cp_inv t \<Longrightarrow> ok_then cp_inv (term_handle_csi t f)"
  by (simp add: term_handle_csi_def cp_inv_pure cp_inv_erase_display cp_inv_erase_line
      cp_inv_erase_chars cp_inv_delete_chars cp_inv_insert_chars cp_inv_line_ops cp_inv_sgr
      cp_inv_modes)

lemma cp_inv_then_upd:
  "ok_then cp_inv r \<Longrightarrow> ok_then (\<lambda>x. cp_inv (x\<lparr>utf8_buf_len := v\<rparr>)) r"
  "ok_then cp_inv r \<Longrightarrow> ok_then (\<lambda>x. cp_inv (x\<lparr>state := s, private_mode := m\<rparr>)) r"
  by (erule ok_then_mono, simp add: cp_inv_def)+

lemma cp_inv_printable: "cp_inv t \<Longrightarrow> ok_then cp_inv (normal_printable t ch)"
proof -
  assume a: "cp_inv t"
  have "ok_then (\<lambda>x. cp_inv (x\<lparr>utf8_buf_len := 0\<rparr>)) (term_putchar t' (utf8_decode b))"
    if "cp_inv t'" for t' b
    by (rule cp_inv_then_upd, rule cp_inv_putchar [OF that utf8_decode_bound])
  moreover have "cp_inv (t\<lparr>utf8_buf := B, utf8_buf_len := n\<rparr>)" for B n
    using a by (simp add: cp_inv_def)
  ultimately show ?thesis
    using a by (simp add: normal_printable_def Let_def ok_then_case)
qed

lemma cp_inv_normal: "cp_inv t \<Longrightarrow> ok_then cp_inv (process_normal t ch)"
proof -
  assume a: "cp_inv t"
  have nl: "ok_then (\<lambda>x. cp_inv (x\<lparr>utf8_buf_len := 0\<rparr>)) (term_newline t')"
    if "cp_inv t'" for t'
    by (rule cp_inv_then_upd, rule cp_inv_newline [OF that])
  consider "ch = 0x1B" | "ch = 0x0A" | "ch = 0x0D" | "ch = 0x08" | "ch = 0x09"
    | "ch \<noteq> 0x1B" "ch \<noteq> 0x0A" "ch \<noteq> 0x0D" "ch \<noteq> 0x08" "ch \<noteq> 0x09"
    by blast
  then show ?thesis
  proof cases
    case 1
    with a show ?thesis by (simp add: process_normal_def cp_inv_def)
  next
    case 2
    with a show ?thesis by (simp add: process_normal_def ok_then_case nl)
  next
    case 3
    with a show ?thesis by (simp add: process_normal_def cp_inv_def term_carriage_return_def)
  next
    case 4
    with a show ?thesis by (simp add: process_normal_def cp_inv_def)
  next
    case 5
    have "ok_then (\<lambda>x. cp_inv (x\<lparr>utf8_buf_len := 0\<rparr>)) (term_newline (t\<lparr>cursor_x := 0\<rparr>))"
      by (rule nl) (use a in \<open>simp add: cp_inv_def\<close>)
    with 5 a show ?thesis
      by (simp add: process_normal_def Let_def ok_then_case cp_inv_def)
  next
    case 6
    with a show ?thesis by (simp add: process_normal_def cp_inv_printable)
  qed
qed

lemma cp_inv_process_char: "cp_inv t \<Longrightarrow> ok_then cp_inv (term_process_char t ch)"
proof -
  assume a: "cp_inv t"
  show ?thesis
  proof (cases "state t")
    case STATE_NORMAL
    with a show ?thesis by (simp add: term_process_char_def cp_inv_normal)
  next
    case STATE_ESC
    with a show ?thesis by (simp add: term_process_char_def process_esc_def cp_inv_def)
  next
    case STATE_CSI
    have "ok_then (\<lambda>x. cp_inv (x\<lparr>state := STATE_NORMAL, private_mode := 0\<rparr>))
      (term_handle_csi t ch)"
      by (rule cp_inv_then_upd, rule cp_inv_handle_csi [OF a])
    with STATE_CSI a show ?thesis
      by (simp add: term_process_char_def process_csi_def Let_def ok_then_case cp_inv_def)
  next
    case STATE_OSC
    with a show ?thesis by (simp add: term_process_char_def process_osc_def cp_inv_def)
  qed
qed

lemma cp_inv_feed: "cp_inv t \<Longrightarrow> ok_then cp_inv (term_feed t bs)"
proof (induction bs arbitrary: t)
  case Nil
  then show ?case by simp
next
  case (Cons b bs)
  show ?case
    unfolding term_feed.simps
    by (rule ok_then_bind [OF cp_inv_process_char [OF Cons.prems]]) (rule Cons.IH)
qed

section \<open>Claims\<close>




text \<open>
  C2 (confirmed). For every Unicode scalar value \<open>c\<close> from U+0020 to U+10FFFF that is not a
  surrogate, feeding the canonical UTF-8 encoding of \<open>c\<close> to a well-formed terminal in
  \<open>STATE_NORMAL\<close> with an idle decoder succeeds and writes a cell whose code point is \<open>c\<close>: the
  cell just left of the new cursor, which is the cell under the old cursor unless a wrap was
  pending. The witness is the claim's example: E4 B8 AD at cursor (0,0) of a fresh 80 by 24
  terminal gives cell (0,0) the code point 0x4E2D and leaves the cursor at row 0, column 1.
\<close>

theorem utf8_roundtrip:
  assumes "term_ok t" and "state t = STATE_NORMAL" and "utf8_buf_len t = 0"
    and "0x20 \<le> c" and "unicode_scalar c"
  shows "\<exists>t'. term_feed t (utf8_encode c) = Inr t' \<and> state t' = STATE_NORMAL
     \<and> utf8_buf_len t' = 0 \<and> 0 < cursor_x t'
     \<and> codepoint (cells t' (cursor_y t') (cursor_x t' - 1)) = c
     \<and> (cursor_x t < TERM_COLS t \<longrightarrow> cursor_y t' = cursor_y t \<and> cursor_x t' = cursor_x t + 1)"
proof -
  from assms(5) have le: "c \<le> 0x10FFFF" by (simp add: unicode_scalar_def)
  have "\<exists>B n. term_feed t (utf8_encode c) = after_put (t\<lparr>utf8_buf := B, utf8_buf_len := n\<rparr>) c"
  proof -
    consider "c < 0x80" | "0x80 \<le> c" "c < 0x800" | "0x800 \<le> c" "c < 0x10000" | "0x10000 \<le> c"
      using linorder_not_less by blast
    then show ?thesis
    proof cases
      case 1
      from feed_enc1 [OF assms(2,3,4) 1] show ?thesis by blast
    next
      case 2
      from feed_enc2 [OF assms(2,3) 2] show ?thesis by blast
    next
      case 3
      from feed_enc3 [OF assms(2,3) 3] show ?thesis by blast
    next
      case 4
      from feed_enc4 [OF assms(2,3) 4 le] show ?thesis by blast
    qed
  qed
  then obtain B n where
    f: "term_feed t (utf8_encode c) = after_put (t\<lparr>utf8_buf := B, utf8_buf_len := n\<rparr>) c"
    by blast
  from after_put_ok [OF assms(1), where B = B and n = n and c = c] assms(2) show ?thesis
    unfolding f by (auto simp: stamp_def)
qed

theorem utf8_roundtrip_witness:
  "\<exists>t0 t'. run 80 24 3 [] = Inr t0 \<and> cursor_y t0 = 0 \<and> cursor_x t0 = 0
     \<and> term_feed t0 [0xE4, 0xB8, 0xAD] = Inr t'
     \<and> codepoint (cells t' 0 0) = 0x4E2D \<and> cursor_y t' = 0 \<and> cursor_x t' = 1"
proof -
  let ?t0 = "(term_zero 80 24)
           \<lparr>fg_color := 0x00FFFFFF, scroll_bottom := 23,
            cursor_visible := 1, master_fd := 3,
            cells := (\<lambda>y x. if 0 \<le> y \<and> y < 24 \<and> 0 \<le> x \<and> x < 80
                             then blank0 else zero_cell)\<rparr>"
  have ok: "term_ok ?t0" by (simp add: term_ok_def term_zero_def)
  have st: "state ?t0 = STATE_NORMAL" "utf8_buf_len ?t0 = 0" by (simp_all add: term_zero_def)
  have c: "(0x20::u32) \<le> 0x4E2D" "unicode_scalar 0x4E2D" by (simp_all add: unicode_scalar_def)
  have cur: "cursor_y ?t0 = 0" "cursor_x ?t0 = 0" "cursor_x ?t0 < TERM_COLS ?t0"
    by (simp_all add: term_zero_def)
  from utf8_roundtrip [OF ok st c] cur run_empty show ?thesis
    unfolding utf8_encode_example by auto
qed

text \<open>
  C3 (confirmed). On a well-formed terminal in \<open>STATE_NORMAL\<close> with the cursor in the last
  column, a printable byte \<open>a\<close> is stored in the cell under the cursor and \<open>cursor_x\<close> becomes
  \<open>TERM_COLS\<close>, on the same row. The next printable byte \<open>b\<close> first performs carriage return
  plus newline: the cursor goes to column 0 of row \<open>cursor_y + 1\<close> with the grid unchanged when
  the cursor was above \<open>scroll_bottom\<close>, and otherwise to column 0 of row \<open>scroll_bottom\<close>
  with the scroll region moved up by one row and its bottom row blanked. Only then is \<open>b\<close>
  stored, in column 0 of that row, and \<open>cursor_x\<close> becomes 1.
\<close>

theorem pending_wrap:
  assumes "term_ok t" and "state t = STATE_NORMAL" and "utf8_buf_len t = 0"
    and "cursor_x t = TERM_COLS t - 1"
    and "0x20 \<le> a" and "a \<le> 0x7E" and "0x20 \<le> b" and "b \<le> 0x7E"
  shows "\<exists>t1 t2 t3. term_process_char t a = Inr t1
     \<and> cells t1 = (cells t)(cursor_y t := (cells t (cursor_y t))(TERM_COLS t - 1 := stamp t (ucast a)))
     \<and> cursor_x t1 = TERM_COLS t \<and> cursor_y t1 = cursor_y t
     \<and> term_newline (term_carriage_return t1) = Inr t2
     \<and> cursor_x t2 = 0
     \<and> cursor_y t2 = (if cursor_y t < scroll_bottom t then cursor_y t + 1 else scroll_bottom t)
     \<and> cells t2 = (if cursor_y t < scroll_bottom t then cells t1
                   else up_grid (cells t1) (scroll_top t) (scroll_bottom t) (TERM_COLS t)
                          (fg_color t) (bg_color t))
     \<and> term_process_char t1 b = Inr t3
     \<and> cells t3 = (cells t2)(cursor_y t2 := (cells t2 (cursor_y t2))(0 := stamp t (ucast b)))
     \<and> cursor_y t3 = cursor_y t2 \<and> cursor_x t3 = 1"
proof -
  let ?ta = "t\<lparr>utf8_buf := (utf8_buf t)(0 := a), utf8_buf_len := 1\<rparr>"
  let ?t1 = "?ta\<lparr>cells := (cells t)(cursor_y t := (cells t (cursor_y t))(cursor_x t := stamp t (ucast a))),
                 cursor_x := cursor_x t + 1, utf8_buf_len := 0\<rparr>"
  have oka: "term_ok ?ta" using assms(1) by simp
  have "cursor_x ?ta < TERM_COLS ?ta" using assms(4) by simp
  from put_cell_eq [OF oka this, of "ucast a"] assms(4)
  have p1: "term_process_char t a = Inr ?t1"
    unfolding process_ascii [OF assms(2,3,5,6)]
    by (simp add: after_put_def term_putchar_def stamp_def)
  have ok1: "term_ok ?t1" using assms(1,4) by (simp add: term_ok_def)
  have st1: "state ?t1 = STATE_NORMAL" "utf8_buf_len ?t1 = 0" using assms(2) by simp_all
  let ?tb = "?t1\<lparr>utf8_buf := (utf8_buf ?t1)(0 := b), utf8_buf_len := 1\<rparr>"
  have okb: "term_ok ?tb" using ok1 by (simp add: term_ok_def)
  have eb: "cursor_x ?tb = TERM_COLS ?tb" using assms(4) by simp
  from term_putchar_wrap [OF okb eb, of "ucast b"] obtain t2' where
    n': "term_newline (term_carriage_return ?tb) = Inr t2'" and
    p': "term_putchar ?tb (ucast b) =
        Inr (t2'\<lparr>cells := (cells t2')(cursor_y t2' := (cells t2' (cursor_y t2'))(0 := stamp ?tb (ucast b))),
               cursor_x := 1\<rparr>)"
    by blast
  have okc: "term_ok (term_carriage_return ?t1)" "term_ok (term_carriage_return ?tb)"
    using ok1 by (simp_all add: term_ok_def term_carriage_return_def)
  obtain t2 where n: "term_newline (term_carriage_return ?t1) = Inr t2"
    unfolding term_newline_eq [OF okc(1)] by blast
  from n n' have rel: "cells t2' = cells t2" "cursor_y t2' = cursor_y t2"
    unfolding term_newline_eq [OF okc(1)] term_newline_eq [OF okc(2)]
    by (auto simp: term_carriage_return_def split: if_splits)
  from n have e2: "cursor_x t2 = 0"
    "cursor_y t2 = (if cursor_y t < scroll_bottom t then cursor_y t + 1 else scroll_bottom t)"
    "cells t2 = (if cursor_y t < scroll_bottom t then cells ?t1
                   else up_grid (cells ?t1) (scroll_top t) (scroll_bottom t) (TERM_COLS t)
                          (fg_color t) (bg_color t))"
    unfolding term_newline_eq [OF okc(1)]
    by (auto simp: term_carriage_return_def split: if_splits)
  have sb: "stamp ?tb (ucast b) = stamp t (ucast b)" by (simp add: stamp_def)
  have p3: "term_process_char ?t1 b =
     Inr (t2'\<lparr>cells := (cells t2')(cursor_y t2' := (cells t2' (cursor_y t2'))(0 := stamp ?tb (ucast b))),
               cursor_x := 1, utf8_buf_len := 0\<rparr>)"
    unfolding process_ascii [OF st1 assms(7,8)] using p' by (simp add: after_put_def)
  let ?t3 = "t2'\<lparr>cells := (cells t2')(cursor_y t2' := (cells t2' (cursor_y t2'))(0 := stamp ?tb (ucast b))),
               cursor_x := 1, utf8_buf_len := 0\<rparr>"
  have c1: "cells ?t1 = (cells t)(cursor_y t := (cells t (cursor_y t))(TERM_COLS t - 1 := stamp t (ucast a)))"
    "cursor_x ?t1 = TERM_COLS t" "cursor_y ?t1 = cursor_y t"
    using assms(4) by simp_all
  have c3: "cells ?t3 = (cells t2)(cursor_y t2 := (cells t2 (cursor_y t2))(0 := stamp t (ucast b)))"
    "cursor_y ?t3 = cursor_y t2" "cursor_x ?t3 = 1"
    by (simp_all add: rel stamp_def)
  from p1 c1 n e2 p3 c3 show ?thesis by blast
qed

theorem pending_wrap_witness:
  "(\<exists>t. run 80 24 3 [0x1B, 0x5B, 0x31, 0x3B, 0x38, 0x30, 0x48] = Inr t
     \<and> term_ok t \<and> state t = STATE_NORMAL \<and> utf8_buf_len t = 0
     \<and> cursor_x t = TERM_COLS t - 1 \<and> cursor_y t = 0 \<and> TERM_COLS t = 80
     \<and> (\<exists>t1 t3. term_process_char t 0x41 = Inr t1
           \<and> codepoint (cells t1 0 79) = 0x41 \<and> cursor_x t1 = 80 \<and> cursor_y t1 = 0
           \<and> term_process_char t1 0x42 = Inr t3
           \<and> codepoint (cells t3 0 79) = 0x41 \<and> codepoint (cells t3 1 0) = 0x42
           \<and> codepoint (cells t3 0 0) = 0x20
           \<and> cursor_y t3 = 1 \<and> cursor_x t3 = 1))
   \<and> (\<exists>t. run 80 24 3 [0x1B, 0x5B, 0x32, 0x34, 0x3B, 0x38, 0x30, 0x48] = Inr t
     \<and> term_ok t \<and> state t = STATE_NORMAL \<and> utf8_buf_len t = 0
     \<and> cursor_x t = TERM_COLS t - 1 \<and> cursor_y t = 23 \<and> scroll_bottom t = 23
     \<and> (\<exists>t1 t3. term_process_char t 0x41 = Inr t1
           \<and> codepoint (cells t1 23 79) = 0x41 \<and> cursor_x t1 = 80 \<and> cursor_y t1 = 23
           \<and> term_process_char t1 0x42 = Inr t3
           \<and> codepoint (cells t3 22 79) = 0x41 \<and> codepoint (cells t3 23 0) = 0x42
           \<and> codepoint (cells t3 23 79) = 0x20
           \<and> cursor_y t3 = 23 \<and> cursor_x t3 = 1))"
proof -
  have b: "(0x20::byte) \<le> 0x41" "(0x41::byte) \<le> 0x7E" "(0x20::byte) \<le> 0x42"
    "(0x42::byte) \<le> 0x7E"
    by simp_all
  let ?t = "(term_zero 80 24)
           \<lparr>fg_color := 0x00FFFFFF, scroll_bottom := 23, cursor_visible := 1, master_fd := 3,
            cells := (\<lambda>y x. if 0 \<le> y \<and> y < 24 \<and> 0 \<le> x \<and> x < 80
                             then blank0 else zero_cell),
            num_escape_params := 2, escape_params := (\<lambda>i. 0)(0 := 1, 1 := 80),
            cursor_x := 79\<rparr>"
  have r: "run 80 24 3 [0x1B, 0x5B, 0x31, 0x3B, 0x38, 0x30, 0x48] = Inr ?t"
    by (simp add: csi_run_defs csi_cursor_position_def)
  have h: "term_ok ?t" "state ?t = STATE_NORMAL" "utf8_buf_len ?t = 0"
    "cursor_x ?t = TERM_COLS ?t - 1"
    by (simp_all add: term_ok_def term_zero_def)
  have v: "cursor_y ?t = 0" "TERM_COLS ?t = 80" by (simp_all add: term_zero_def)
  from pending_wrap [OF h b] obtain t1 t2 t3 where
    "term_process_char ?t 0x41 = Inr t1"
    "cells t1 = (cells ?t)(cursor_y ?t := (cells ?t (cursor_y ?t))(TERM_COLS ?t - 1 := stamp ?t (ucast (0x41::byte))))"
    "cursor_x t1 = TERM_COLS ?t" "cursor_y t1 = cursor_y ?t"
    "term_newline (term_carriage_return t1) = Inr t2" "cursor_x t2 = 0"
    "cursor_y t2 = (if cursor_y ?t < scroll_bottom ?t then cursor_y ?t + 1 else scroll_bottom ?t)"
    "cells t2 = (if cursor_y ?t < scroll_bottom ?t then cells t1
                   else up_grid (cells t1) (scroll_top ?t) (scroll_bottom ?t) (TERM_COLS ?t)
                          (fg_color ?t) (bg_color ?t))"
    "term_process_char t1 0x42 = Inr t3"
    "cells t3 = (cells t2)(cursor_y t2 := (cells t2 (cursor_y t2))(0 := stamp ?t (ucast (0x42::byte))))"
    "cursor_y t3 = cursor_y t2" "cursor_x t3 = 1"
    by blast
  then have "term_process_char ?t 0x41 = Inr t1
           \<and> codepoint (cells t1 0 79) = 0x41 \<and> cursor_x t1 = 80 \<and> cursor_y t1 = 0
           \<and> term_process_char t1 0x42 = Inr t3
           \<and> codepoint (cells t3 0 79) = 0x41 \<and> codepoint (cells t3 1 0) = 0x42
           \<and> codepoint (cells t3 0 0) = 0x20
           \<and> cursor_y t3 = 1 \<and> cursor_x t3 = 1"
    by (simp add: term_zero_def stamp_def blank0_def)
  with r h v have A: "\<exists>t. run 80 24 3 [0x1B, 0x5B, 0x31, 0x3B, 0x38, 0x30, 0x48] = Inr t
     \<and> term_ok t \<and> state t = STATE_NORMAL \<and> utf8_buf_len t = 0
     \<and> cursor_x t = TERM_COLS t - 1 \<and> cursor_y t = 0 \<and> TERM_COLS t = 80
     \<and> (\<exists>t1 t3. term_process_char t 0x41 = Inr t1
           \<and> codepoint (cells t1 0 79) = 0x41 \<and> cursor_x t1 = 80 \<and> cursor_y t1 = 0
           \<and> term_process_char t1 0x42 = Inr t3
           \<and> codepoint (cells t3 0 79) = 0x41 \<and> codepoint (cells t3 1 0) = 0x42
           \<and> codepoint (cells t3 0 0) = 0x20
           \<and> cursor_y t3 = 1 \<and> cursor_x t3 = 1)"
    by blast
  let ?s = "(term_zero 80 24)
           \<lparr>fg_color := 0x00FFFFFF, scroll_bottom := 23, cursor_visible := 1, master_fd := 3,
            cells := (\<lambda>y x. if 0 \<le> y \<and> y < 24 \<and> 0 \<le> x \<and> x < 80
                             then blank0 else zero_cell),
            num_escape_params := 2, escape_params := (\<lambda>i. 0)(0 := 24, 1 := 80),
            cursor_y := 23, cursor_x := 79\<rparr>"
  have r': "run 80 24 3 [0x1B, 0x5B, 0x32, 0x34, 0x3B, 0x38, 0x30, 0x48] = Inr ?s"
    by (simp add: csi_run_defs csi_cursor_position_def)
  have h': "term_ok ?s" "state ?s = STATE_NORMAL" "utf8_buf_len ?s = 0"
    "cursor_x ?s = TERM_COLS ?s - 1"
    by (simp_all add: term_ok_def term_zero_def)
  have v': "cursor_y ?s = 23" "scroll_bottom ?s = 23" by (simp_all add: term_zero_def)
  from pending_wrap [OF h' b] obtain s1 s2 s3 where
    "term_process_char ?s 0x41 = Inr s1"
    "cells s1 = (cells ?s)(cursor_y ?s := (cells ?s (cursor_y ?s))(TERM_COLS ?s - 1 := stamp ?s (ucast (0x41::byte))))"
    "cursor_x s1 = TERM_COLS ?s" "cursor_y s1 = cursor_y ?s"
    "term_newline (term_carriage_return s1) = Inr s2" "cursor_x s2 = 0"
    "cursor_y s2 = (if cursor_y ?s < scroll_bottom ?s then cursor_y ?s + 1 else scroll_bottom ?s)"
    "cells s2 = (if cursor_y ?s < scroll_bottom ?s then cells s1
                   else up_grid (cells s1) (scroll_top ?s) (scroll_bottom ?s) (TERM_COLS ?s)
                          (fg_color ?s) (bg_color ?s))"
    "term_process_char s1 0x42 = Inr s3"
    "cells s3 = (cells s2)(cursor_y s2 := (cells s2 (cursor_y s2))(0 := stamp ?s (ucast (0x42::byte))))"
    "cursor_y s3 = cursor_y s2" "cursor_x s3 = 1"
    by blast
  then have "term_process_char ?s 0x41 = Inr s1
           \<and> codepoint (cells s1 23 79) = 0x41 \<and> cursor_x s1 = 80 \<and> cursor_y s1 = 23
           \<and> term_process_char s1 0x42 = Inr s3
           \<and> codepoint (cells s3 22 79) = 0x41 \<and> codepoint (cells s3 23 0) = 0x42
           \<and> codepoint (cells s3 23 79) = 0x20
           \<and> cursor_y s3 = 23 \<and> cursor_x s3 = 1"
    by (simp add: term_zero_def stamp_def blank0_def up_grid_def blank_cell_def)
  with r' h' v' have B: "\<exists>t. run 80 24 3 [0x1B, 0x5B, 0x32, 0x34, 0x3B, 0x38, 0x30, 0x48] = Inr t
     \<and> term_ok t \<and> state t = STATE_NORMAL \<and> utf8_buf_len t = 0
     \<and> cursor_x t = TERM_COLS t - 1 \<and> cursor_y t = 23 \<and> scroll_bottom t = 23
     \<and> (\<exists>t1 t3. term_process_char t 0x41 = Inr t1
           \<and> codepoint (cells t1 23 79) = 0x41 \<and> cursor_x t1 = 80 \<and> cursor_y t1 = 23
           \<and> term_process_char t1 0x42 = Inr t3
           \<and> codepoint (cells t3 22 79) = 0x41 \<and> codepoint (cells t3 23 0) = 0x42
           \<and> codepoint (cells t3 23 79) = 0x20
           \<and> cursor_y t3 = 23 \<and> cursor_x t3 = 1)"
    by blast
  from A B show ?thesis by (rule conjI)
qed

text \<open>
  C4 (confirmed). On a well-formed terminal in \<open>STATE_NORMAL\<close> whose PTY master descriptor is
  valid, for every row \<open>y\<close> in \<open>1..rows\<close> and column \<open>x\<close> in \<open>1..cols\<close>: processing ESC \<^verbatim>\<open>[ y ; x H\<close>
  and then ESC \<^verbatim>\<open>[ 6 n\<close> (the numbers in decimal) appends exactly ESC \<^verbatim>\<open>[ y ; x R\<close> to the bytes
  written to the master, and the cursor is at row \<open>y - 1\<close>, column \<open>x - 1\<close>.
\<close>

theorem cursor_report_roundtrip:
  assumes "term_ok t" and "state t = STATE_NORMAL" and "0 \<le> master_fd t"
    and "1 \<le> y" and "int y \<le> TERM_ROWS t" and "1 \<le> x" and "int x \<le> TERM_COLS t"
  shows "\<exists>t'. term_feed t ([0x1B, 0x5B] @ dec y @ [0x3B] @ dec x @ [0x48] @ [0x1B, 0x5B, 0x36, 0x6E])
                = Inr t'
     \<and> master_out t' = master_out t @ [0x1B, 0x5B] @ dec y @ [0x3B] @ dec x @ [0x52]
     \<and> cursor_y t' = int y - 1 \<and> cursor_x t' = int x - 1"
proof -
  from assms(1,5,7) have b: "y < 2147483648" "x < 2147483648"
    by (simp_all add: term_ok_def)
  let ?p = "(csi_start t)\<lparr>num_escape_params := 2,
                escape_params := (\<lambda>i. 0)(0 := int y, 1 := int x)\<rparr>"
  let ?t1 = "?p\<lparr>cursor_y := int y - 1, cursor_x := int x - 1, state := STATE_NORMAL,
                private_mode := 0\<rparr>"
  have "term_feed t ([0x1B, 0x5B] @ dec y @ [0x3B] @ dec x @ [0x48]) =
    (case term_handle_csi ?p 0x48 of
       Inl e \<Rightarrow> Inl e
     | Inr t' \<Rightarrow> Inr (t'\<lparr>state := STATE_NORMAL, private_mode := 0\<rparr>))"
    by (rule csi_two_params [OF assms(2) b]) simp_all
  also have "\<dots> = Inr ?t1"
    using assms(4-7)
    by (simp add: term_handle_csi_def csi_cursor_position_def param_pos_def csi_start_def)
  finally have H: "term_feed t ([0x1B, 0x5B] @ dec y @ [0x3B] @ dec x @ [0x48]) = Inr ?t1" .
  have n1: "state ?t1 = STATE_NORMAL" by simp
  have six: "[0x1B, 0x5B, 0x36, 0x6E] = [0x1B, 0x5B] @ dec 6 @ [0x6E::byte]"
    by (simp add: dec_digit)
  let ?q = "(csi_start ?t1)\<lparr>num_escape_params := 1, escape_params := (\<lambda>i. 0)(0 := 6)\<rparr>"
  let ?t2 = "?q\<lparr>master_out := master_out t @ [0x1B, 0x5B] @ dec y @ [0x3B] @ dec x @ [0x52],
                state := STATE_NORMAL, private_mode := 0\<rparr>"
  have w: "wrap32 (int y) = int y" "wrap32 (int x) = int x"
    using b by (simp_all add: wrap32_def)
  have "term_feed ?t1 ([0x1B, 0x5B] @ dec 6 @ [0x6E]) =
    (case term_handle_csi ?q 0x6E of
       Inl e \<Rightarrow> Inl e
     | Inr t' \<Rightarrow> Inr (t'\<lparr>state := STATE_NORMAL, private_mode := 0\<rparr>))"
    using csi_one_param [OF n1, where n = 6 and f = "0x6E"] by simp
  also have "\<dots> = Inr ?t2"
    using assms(3)
    by (simp add: term_handle_csi_def csi_device_status_def master_write_def csi_start_def w)
  finally have R: "term_feed ?t1 [0x1B, 0x5B, 0x36, 0x6E] = Inr ?t2"
    unfolding six .
  have "term_feed t (([0x1B, 0x5B] @ dec y @ [0x3B] @ dec x @ [0x48]) @ [0x1B, 0x5B, 0x36, 0x6E])
      = (case term_feed t ([0x1B, 0x5B] @ dec y @ [0x3B] @ dec x @ [0x48]) of
           Inl e \<Rightarrow> Inl e | Inr t' \<Rightarrow> term_feed t' [0x1B, 0x5B, 0x36, 0x6E])"
    by (rule term_feed_append)
  also have "\<dots> = Inr ?t2"
    by (simp only: H sum.case R)
  finally have "term_feed t ([0x1B, 0x5B] @ dec y @ [0x3B] @ dec x @ [0x48] @ [0x1B, 0x5B, 0x36, 0x6E])
      = Inr ?t2" by simp
  moreover have "master_out ?t2 = master_out t @ [0x1B, 0x5B] @ dec y @ [0x3B] @ dec x @ [0x52]"
    "cursor_y ?t2 = int y - 1" "cursor_x ?t2 = int x - 1"
    by (simp_all add: csi_start_def)
  ultimately show ?thesis by blast
qed

theorem cursor_report_roundtrip_witness:
  "\<exists>t t'. run 80 24 3 [] = Inr t
     \<and> term_feed t [0x1B, 0x5B, 0x33, 0x3B, 0x31, 0x30, 0x48, 0x1B, 0x5B, 0x36, 0x6E] = Inr t'
     \<and> master_out t' = [0x1B, 0x5B, 0x33, 0x3B, 0x31, 0x30, 0x52]
     \<and> cursor_y t' = 2 \<and> cursor_x t' = 9"
proof -
  let ?t = "(term_zero 80 24)
           \<lparr>fg_color := 0x00FFFFFF, scroll_bottom := 23, cursor_visible := 1, master_fd := 3,
            cells := (\<lambda>y x. if 0 \<le> y \<and> y < 24 \<and> 0 \<le> x \<and> x < 80
                             then blank0 else zero_cell)\<rparr>"
  have h: "term_ok ?t" "state ?t = STATE_NORMAL" "0 \<le> master_fd ?t"
    by (simp_all add: term_ok_def term_zero_def)
  have yx: "1 \<le> (3::nat)" "int 3 \<le> TERM_ROWS ?t" "1 \<le> (10::nat)" "int 10 \<le> TERM_COLS ?t"
    by (simp_all add: term_zero_def)
  have d: "dec 3 = [0x33]" "dec 10 = [0x31, 0x30]"
    by (simp_all add: dec.simps)
  have m: "master_out ?t = []" by (simp add: term_zero_def)
  from cursor_report_roundtrip [OF h yx] run_empty show ?thesis
    unfolding d m by simp
qed

text \<open>
  C5 (the code does otherwise). The claim: after ESC, the byte \<^verbatim>\<open>(\<close> is the charset-designator
  introducer and the byte after it is discarded without effect. The code returns to
  \<open>STATE_NORMAL\<close> on \<^verbatim>\<open>(\<close>, so the next byte is processed as ordinary input: on an 80 by 24
  terminal fresh from start-up, ESC \<^verbatim>\<open>(\<close> \<^verbatim>\<open>B\<close> writes the letter B into cell (0,0) and moves the
  cursor to column 1.
\<close>

theorem esc_paren_next_byte_is_printed:
  "obs (cp_at 0 0) (run 80 24 3 [0x1B, 0x28, 0x42]) = Inr 0x42
   \<and> obs cursor_x (run 80 24 3 [0x1B, 0x28, 0x42]) = Inr 1
   \<and> obs (cp_at 0 0) (run 80 24 3 []) = Inr 0x20
   \<and> obs cursor_x (run 80 24 3 []) = Inr 0"
  by (simp add: obs_def cp_at_def run_def term_init_eq term_zero_def step_defs expected_len_def
      utf8_decode_def term_putchar_def put_cell_def in_array_def wrap32_def blank0_def)

text \<open>
  C6 (amended). The claim: after every processed byte every cell holds a space or a valid
  Unicode scalar value, for every input stream. \<^verbatim>\<open>utf8_decode\<close> assembles the payload bits
  of whatever sequence has accumulated and checks neither surrogates nor the upper limit, so
  cells can hold surrogates and values up to \<open>0x1FFFFF\<close>. What holds after every byte stream
  processed from start-up without an out-of-bounds access: every cell's code point is below
  \<open>0x200000\<close>. (For canonical input the stored code point is the encoded scalar: C2.)
\<close>

theorem codepoints_21_bits:
  assumes "run cols rows fd bs = Inr t"
  shows "codepoint (cells t y x) < 0x200000"
proof -
  from assms obtain t0 where i: "term_init cols rows = Inr t0"
    and f: "term_feed (t0\<lparr>master_fd := fd\<rparr>) bs = Inr t"
    by (auto simp: run_def split: sum.splits)
  have z: "grid_bounded (\<lambda>y x. zero_cell)"
    by (simp add: grid_bounded_def zero_cell_def)
  from i have "ok_then cp_inv (Inr t0)"
    using gb_blank_rows [OF z, of 0 rows cols "0x00FFFFFF" 0]
    by (auto simp: term_init_def Let_def term_zero_def cp_inv_def split: sum.splits)
  then have "cp_inv (t0\<lparr>master_fd := fd\<rparr>)" by (simp add: cp_inv_def)
  from cp_inv_feed [OF this, of bs] f have "cp_inv t" by simp
  then show ?thesis by (simp add: cp_inv_def grid_bounded_def)
qed

theorem codepoints_21_bits_witness:
  "\<exists>t. run 80 24 3 [0xF7, 0xBF, 0xBF, 0xBF] = Inr t
     \<and> codepoint (cells t 0 0) = 0x1FFFFF \<and> codepoint (cells t 0 0) < 0x200000"
proof -
  have "\<exists>t. run 80 24 3 [0xF7, 0xBF, 0xBF, 0xBF] = Inr t \<and> codepoint (cells t 0 0) = 0x1FFFFF"
    by (simp add: run_eval is_cont_def)
  then obtain t where r: "run 80 24 3 [0xF7, 0xBF, 0xBF, 0xBF] = Inr t"
    and c: "codepoint (cells t 0 0) = 0x1FFFFF"
    by blast
  from codepoints_21_bits [OF r, of 0 0] r c show ?thesis by blast
qed

text \<open>ED A0 80 stores the surrogate U+D800 in cell (0,0) of a fresh 80 by 24 terminal, and
  F4 90 80 80 stores \<open>0x110000\<close>, beyond the last scalar value.\<close>

theorem surrogate_and_overflow_stored:
  "obs (cp_at 0 0) (run 80 24 3 [0xED, 0xA0, 0x80]) = Inr 0xD800
   \<and> \<not> unicode_scalar 0xD800 \<and> (0xD800::u32) \<noteq> 0x20
   \<and> obs (cp_at 0 0) (run 80 24 3 [0xF4, 0x90, 0x80, 0x80]) = Inr 0x110000
   \<and> \<not> unicode_scalar 0x110000 \<and> (0x110000::u32) \<noteq> 0x20"
  by (simp add: run_eval is_cont_def cp_at_def unicode_scalar_def)

text \<open>
  C7 (the code does otherwise). The claim: ESC \<^verbatim>\<open>[ ; 5 H\<close> from the initial state moves the cursor
  to row 0, column 4. In the code the semicolon raises the parameter count from 0 to 1 and
  the digit 5 is then accumulated into slot \<open>count - 1 = 0\<close>, the first parameter: the
  cursor ends at row 4, column 0.
\<close>

theorem leading_semicolon_fills_first_param:
  "obs cursor_y (run 80 24 3 [0x1B, 0x5B, 0x3B, 0x35, 0x48]) = Inr 4
   \<and> obs cursor_x (run 80 24 3 [0x1B, 0x5B, 0x3B, 0x35, 0x48]) = Inr 0"
  by (simp add: obs_def run_def term_init_eq term_zero_def step_defs term_handle_csi_def
      csi_cursor_position_def param_pos_def wrap32_def)

text \<open>
  C8 (amended). The claim: for \<open>k \<ge> 1\<close> within the region height, ESC \<^verbatim>\<open>[ k S\<close> followed by
  ESC \<^verbatim>\<open>[ k T\<close> restores every cell of the scroll region, provided the top \<open>k\<close> and bottom \<open>k\<close>
  rows of the region were blank. An erase in the code assigns the code point and the two
  colours of a cell and leaves its bold flag, so the \<open>k\<close> rows blanked at the top keep the
  bold flags that scrolled through them. What holds on a well-formed terminal in
  \<open>STATE_NORMAL\<close> with an ordered region: the pair restores code point, foreground and
  background of every cell of the region, and the whole cell from row \<open>scroll_top + k\<close> on.
\<close>

theorem scroll_cancellation:
  assumes "term_ok t" and "state t = STATE_NORMAL" and "scroll_top t \<le> scroll_bottom t"
    and "1 \<le> k" and "int k \<le> scroll_bottom t - scroll_top t + 1" and "edges_blank k t"
  shows "\<exists>t'. term_feed t (scroll_pair k) = Inr t'
     \<and> (\<forall>y x. scroll_top t \<le> y \<and> y \<le> scroll_bottom t \<and> 0 \<le> x \<and> x < TERM_COLS t
           \<longrightarrow> same_glyph (cells t' y x) (cells t y x)
             \<and> (scroll_top t + int k \<le> y \<longrightarrow> cells t' y x = cells t y x))"
proof -
  from assms(1,5) have kb: "k < 2147483648" by (simp add: term_ok_def)
  let ?u = "up_n (cells t) (scroll_top t) (scroll_bottom t) (TERM_COLS t)
                      (fg_color t) (bg_color t) k"
  let ?t1 = "(csi_start t)\<lparr>num_escape_params := 1, escape_params := (\<lambda>i. 0)(0 := int k),
           cells := ?u, state := STATE_NORMAL, private_mode := 0\<rparr>"
  have U: "term_feed t ([0x1B, 0x5B] @ dec k @ [0x53]) = Inr ?t1"
    by (rule feed_scroll_up [OF assms(1-4) kb])
  have h1: "term_ok ?t1" "state ?t1 = STATE_NORMAL" "scroll_top ?t1 \<le> scroll_bottom ?t1"
    using assms(1,3) by (simp_all add: term_ok_def csi_start_def)
  let ?d = "down_n ?u (scroll_top t) (scroll_bottom t) (TERM_COLS t) (fg_color t) (bg_color t) k"
  let ?t2 = "(csi_start ?t1)\<lparr>num_escape_params := 1, escape_params := (\<lambda>i. 0)(0 := int k),
           cells := ?d, state := STATE_NORMAL, private_mode := 0\<rparr>"
  have D: "term_feed ?t1 ([0x1B, 0x5B] @ dec k @ [0x54]) = Inr ?t2"
    using feed_scroll_down [OF h1 assms(4) kb] by (simp add: csi_start_def)
  have "term_feed t (([0x1B, 0x5B] @ dec k @ [0x53]) @ ([0x1B, 0x5B] @ dec k @ [0x54]))
      = (case term_feed t ([0x1B, 0x5B] @ dec k @ [0x53]) of
           Inl e \<Rightarrow> Inl e | Inr t' \<Rightarrow> term_feed t' ([0x1B, 0x5B] @ dec k @ [0x54]))"
    by (rule term_feed_append)
  also have "\<dots> = Inr ?t2" by (simp only: U sum.case D)
  finally have F: "term_feed t (scroll_pair k) = Inr ?t2"
    by (simp add: scroll_pair_def)
  have c: "cells ?t2 = ?d" by (simp add: csi_start_def)
  have "same_glyph (?d y x) (cells t y x)
             \<and> (scroll_top t + int k \<le> y \<longrightarrow> ?d y x = cells t y x)"
    if r: "scroll_top t \<le> y" "y \<le> scroll_bottom t" "0 \<le> x" "x < TERM_COLS t" for y x
  proof (cases "scroll_top t + int k \<le> y")
    case True
    with r show ?thesis by (simp add: down_n_def up_n_def same_glyph_def)
  next
    case False
    with r assms(6) have "is_blank t (cells t y x)"
      unfolding edges_blank_def by auto
    with False r show ?thesis
      by (simp add: down_n_def up_n_def same_glyph_def is_blank_def blank_cell_def)
  qed
  with F c show ?thesis by auto
qed

theorem scroll_cancellation_witness:
  "\<exists>t t'. run 80 24 3 [0x1B, 0x5B, 0x35, 0x3B, 0x31, 0x48, 0x41] = Inr t
     \<and> term_ok t \<and> state t = STATE_NORMAL \<and> scroll_top t = 0 \<and> scroll_bottom t = 23
     \<and> TERM_COLS t = 80 \<and> edges_blank 2 t \<and> codepoint (cells t 4 0) = 0x41
     \<and> term_feed t (scroll_pair 2) = Inr t'
     \<and> cells t' 4 0 = cells t 4 0 \<and> same_glyph (cells t' 0 0) (cells t 0 0)"
proof -
  have "\<exists>t. run 80 24 3 [0x1B, 0x5B, 0x35, 0x3B, 0x31, 0x48, 0x41] = Inr t
     \<and> term_ok t \<and> state t = STATE_NORMAL \<and> scroll_top t = 0 \<and> scroll_bottom t = 23
     \<and> TERM_COLS t = 80 \<and> edges_blank 2 t \<and> codepoint (cells t 4 0) = 0x41"
    by (simp add: run_eval edges_blank_def is_blank_def term_ok_def) auto
  then obtain t where r: "run 80 24 3 [0x1B, 0x5B, 0x35, 0x3B, 0x31, 0x48, 0x41] = Inr t"
    and h: "term_ok t" "state t = STATE_NORMAL" and tb: "scroll_top t = 0" "scroll_bottom t = 23"
    and c: "TERM_COLS t = 80" and e: "edges_blank 2 t" and a: "codepoint (cells t 4 0) = 0x41"
    by blast
  have o: "scroll_top t \<le> scroll_bottom t" "1 \<le> (2::nat)"
    "int 2 \<le> scroll_bottom t - scroll_top t + 1"
    using tb by simp_all
  from scroll_cancellation [OF h o e] obtain t' where
    f: "term_feed t (scroll_pair 2) = Inr t'" and
    q: "\<forall>y x. scroll_top t \<le> y \<and> y \<le> scroll_bottom t \<and> 0 \<le> x \<and> x < TERM_COLS t
           \<longrightarrow> same_glyph (cells t' y x) (cells t y x)
             \<and> (scroll_top t + int 2 \<le> y \<longrightarrow> cells t' y x = cells t y x)"
    by blast
  from q [rule_format, of 4 0] q [rule_format, of 0 0] tb c
  have "cells t' 4 0 = cells t 4 0" "same_glyph (cells t' 0 0) (cells t 0 0)"
    by simp_all
  with r h tb c e a f show ?thesis by blast
qed

text \<open>A bold X in row 1 of a fresh 80 by 24 terminal, SGR reset, then the pair with
  \<open>k = 1\<close>: rows 0 and 23 were blank, and cell (0,0) comes back with its bold flag set.\<close>

theorem scroll_pair_changes_bold:
  "obs (edges_blank 1) (run 80 24 3 [0x1B, 0x5B, 0x31, 0x6D, 0x1B, 0x5B, 0x32, 0x3B, 0x31, 0x48,
          0x58, 0x1B, 0x5B, 0x30, 0x6D]) = Inr True
   \<and> obs region_ordered (run 80 24 3 [0x1B, 0x5B, 0x31, 0x6D, 0x1B, 0x5B, 0x32, 0x3B, 0x31, 0x48,
          0x58, 0x1B, 0x5B, 0x30, 0x6D]) = Inr True
   \<and> obs (cell_at 0 0) (run 80 24 3 [0x1B, 0x5B, 0x31, 0x6D, 0x1B, 0x5B, 0x32, 0x3B, 0x31, 0x48,
          0x58, 0x1B, 0x5B, 0x30, 0x6D]) = Inr blank0
   \<and> obs (cell_at 0 0) (run 80 24 3 ([0x1B, 0x5B, 0x31, 0x6D, 0x1B, 0x5B, 0x32, 0x3B, 0x31, 0x48,
          0x58, 0x1B, 0x5B, 0x30, 0x6D] @ scroll_pair 1))
       = Inr (blank0\<lparr>cell_bold := 1\<rparr>)"
proof (intro conjI)
  show "obs (edges_blank 1) (run 80 24 3 [0x1B, 0x5B, 0x31, 0x6D, 0x1B, 0x5B, 0x32, 0x3B, 0x31, 0x48,
          0x58, 0x1B, 0x5B, 0x30, 0x6D]) = Inr True"
    by (simp add: run_eval edges_blank_def is_blank_def) auto
  show "obs region_ordered (run 80 24 3 [0x1B, 0x5B, 0x31, 0x6D, 0x1B, 0x5B, 0x32, 0x3B, 0x31, 0x48,
          0x58, 0x1B, 0x5B, 0x30, 0x6D]) = Inr True"
    by (simp add: run_eval region_ordered_def)
  show "obs (cell_at 0 0) (run 80 24 3 [0x1B, 0x5B, 0x31, 0x6D, 0x1B, 0x5B, 0x32, 0x3B, 0x31, 0x48,
          0x58, 0x1B, 0x5B, 0x30, 0x6D]) = Inr blank0"
    by (simp add: run_eval)
  show "obs (cell_at 0 0) (run 80 24 3 ([0x1B, 0x5B, 0x31, 0x6D, 0x1B, 0x5B, 0x32, 0x3B, 0x31, 0x48,
          0x58, 0x1B, 0x5B, 0x30, 0x6D] @ scroll_pair 1))
       = Inr (blank0\<lparr>cell_bold := 1\<rparr>)"
    unfolding scroll_pair_1 by (simp add: run_eval)
qed

text \<open>
  C9 (the code does otherwise). The claim: Delete Characters (CSI P) with any count \<open>k \<ge> 1\<close>
  reads and writes only columns \<open>0..cols-1\<close> of the cursor row. With \<open>k > cols\<close> the blanking
  loop of the code starts at column \<open>cols - k < 0\<close>: on an 80-column terminal fresh from
  start-up, ESC \<^verbatim>\<open>[ 8 1 P\<close> writes \<^verbatim>\<open>cells[0][-1]\<close>, outside the array.
\<close>

theorem delete_chars_out_of_bounds:
  "run 80 24 3 [0x1B, 0x5B, 0x38, 0x31, 0x50] = Inl OutOfBounds"
  apply (simp add: run_def term_init_eq term_zero_def step_defs term_handle_csi_def
      csi_delete_chars_def param_count_def wrap32_def with_cells_def)
  apply (subst shift_left_cells.simps)
  apply (simp add: blank_cells_eq)
  done

text \<open>
  C10 (amended). The claim: every letter key A..Z pressed while Ctrl is held yields the
  C0 control byte of that letter. \<^verbatim>\<open>kb_get_sequence\<close> lists ten letters under Ctrl (C, D, Z, L,
  A, E, K, U, W, R, followed by the comment "Add more as needed"); for each of these it
  returns the one-byte sequence holding the C0 byte of the letter and leaves the modifier
  state as it was.
\<close>

theorem ctrl_listed_letters_give_c0:
  assumes "ctrl_pressed s \<noteq> 0" and "(k, b) \<in> set letter_keys" and "k \<in> set ctrl_mapped_keys"
  shows "kb_get_sequence s k = ([b], s)"
proof -
  from assms(3) have "k = KEY_C \<or> k = KEY_D \<or> k = KEY_Z \<or> k = KEY_L \<or> k = KEY_A
      \<or> k = KEY_E \<or> k = KEY_K \<or> k = KEY_U \<or> k = KEY_W \<or> k = KEY_R"
    by (simp add: ctrl_mapped_keys_def)
  then show ?thesis
    using assms(2) ctrl_key_eval [OF assms(1)]
    by (elim disjE) (simp_all add: letter_byte)
qed

theorem ctrl_listed_letters_give_c0_witness:
  "ctrl_pressed (snd (kb_get_sequence kb_init KEY_LEFTCTRL)) \<noteq> 0
   \<and> (KEY_W, 0x17) \<in> set letter_keys \<and> KEY_W \<in> set ctrl_mapped_keys
   \<and> fst (kb_get_sequence (snd (kb_get_sequence kb_init KEY_LEFTCTRL)) KEY_W) = [0x17]"
proof -
  have c: "ctrl_pressed (snd (kb_get_sequence kb_init KEY_LEFTCTRL)) \<noteq> 0"
    by (simp add: kb_get_sequence_def kb_init_def)
  have l: "(KEY_W, 0x17) \<in> set letter_keys"
    by (simp add: letter_keys_def)
  have m: "KEY_W \<in> set ctrl_mapped_keys"
    by (simp add: ctrl_mapped_keys_def)
  from ctrl_listed_letters_give_c0 [OF c l m] c l m show ?thesis by simp
qed

text \<open>Ctrl held, then B: the mapper returns the empty sequence, not the byte 0x02.\<close>

theorem ctrl_b_gives_nothing:
  "(KEY_B, 0x02) \<in> set letter_keys
   \<and> fst (kb_get_sequence (snd (kb_get_sequence kb_init KEY_LEFTCTRL)) KEY_B) = []
   \<and> fst (kb_get_sequence (snd (kb_get_sequence kb_init KEY_LEFTCTRL)) KEY_B) \<noteq> [0x02]"
  by (simp add: letter_keys_def kb_get_sequence_def kb_init_def)

end
